theory Spec2Isabelle
  imports Main "HOL-Library.Sublist"
begin

section \<open>JavaScript strings and character classes\<close>

text \<open>
  A JavaScript string is a sequence of UTF-16 code units; \<open>length\<close>, \<open>slice\<close>,
  \<open>split\<close> and the regular expressions of \<^verbatim>\<open>codex-run.pty.ts\<close> (none has the
  \<^verbatim>\<open>u\<close> flag) all count and compare code units. A code unit is a \<open>nat\<close>.
  \<open>js\<close> reads an ASCII literal of the source as such a string.
\<close>

type_synonym cu = nat
type_synonym jsstring = "cu list"

definition js :: "string \<Rightarrow> jsstring" where
  "js s = map of_char s"

text \<open>
  \<^verbatim>\<open>\s\<close> and \<^verbatim>\<open>String.prototype.trim\<close> use the same set: ECMAScript WhiteSpace
  (TAB, VT, FF, SP, NBSP, ZWNBSP and the Unicode category Zs) and LineTerminator
  (LF, CR, LS, PS).
\<close>

definition isWhiteSpace :: "cu \<Rightarrow> bool" where
  "isWhiteSpace c =
     (c \<in> set [9, 10, 11, 12, 13, 32, 160, 5760, 8232, 8233, 8239, 8287, 12288, 65279]
      \<or> (8192 \<le> c \<and> c \<le> 8202))"

definition isLineTerminator :: "cu \<Rightarrow> bool" where
  "isLineTerminator c = (c \<in> set [10, 13, 8232, 8233])"

text \<open>\<^verbatim>\<open>\b\<close> without the \<^verbatim>\<open>u\<close> flag: the word characters are \<^verbatim>\<open>[A-Za-z0-9_]\<close>.\<close>

definition isWordChar :: "cu \<Rightarrow> bool" where
  "isWordChar c = ((48 \<le> c \<and> c \<le> 57) \<or> (65 \<le> c \<and> c \<le> 90) \<or> c = 95 \<or> (97 \<le> c \<and> c \<le> 122))"

text \<open>
  Flag \<^verbatim>\<open>i\<close> without flag \<^verbatim>\<open>u\<close> compares characters after Canonicalize, which
  upper-cases a code unit unless that would map a non-ASCII unit to an ASCII one. Every
  character written in the patterns of the source is ASCII, so for them the comparison is
  the ASCII case folding below: a non-ASCII input unit never equals a pattern character.
\<close>

definition canon :: "cu \<Rightarrow> cu" where
  "canon c = (if 97 \<le> c \<and> c \<le> 122 then c - 32 else c)"

section \<open>Regular expressions of the source\<close>

text \<open>
  The constructs the five patterns of the source use. \<open>Chr c\<close> is a pattern character,
  \<open>Space\<close> is \<^verbatim>\<open>\s\<close>, \<open>AnyChar\<close> is \<^verbatim>\<open>.\<close> (anything but a line terminator),
  \<open>NoneOf\<close> and \<open>OneOf\<close> are bracket classes; \<open>Upto n r\<close> is \<^verbatim>\<open>r{0,n}\<close>,
  \<open>WordB\<close> is \<^verbatim>\<open>\b\<close> and \<open>Eoi\<close> is \<^verbatim>\<open>$\<close> (no flag \<^verbatim>\<open>m\<close>: end of input).
\<close>

datatype cls = Chr cu | Space | AnyChar | NoneOf "cu list" | OneOf "cu list"

fun cls_match :: "cls \<Rightarrow> cu \<Rightarrow> bool" where
  "cls_match (Chr c) x = (canon x = canon c)"
| "cls_match Space x = isWhiteSpace x"
| "cls_match AnyChar x = (\<not> isLineTerminator x)"
| "cls_match (NoneOf cs) x = (canon x \<notin> set (map canon cs))"
| "cls_match (OneOf cs) x = (canon x \<in> set (map canon cs))"

datatype rx = Eps | Atom cls | Seq rx rx | Alt rx rx | Star rx | Upto nat rx | WordB | Eoi

definition Opt :: "rx \<Rightarrow> rx" where
  "Opt r = Alt r Eps"

definition Plus :: "rx \<Rightarrow> rx" where
  "Plus r = Seq r (Star r)"

fun lit :: "string \<Rightarrow> rx" where
  "lit [] = Eps"
| "lit (c # cs) = Seq (Atom (Chr (of_char c))) (lit cs)"

fun seqs :: "rx list \<Rightarrow> rx" where
  "seqs [] = Eps"
| "seqs [r] = r"
| "seqs (r # rs) = Seq r (seqs rs)"

fun alts :: "rx list \<Rightarrow> rx" where
  "alts [] = Atom (OneOf [])"
| "alts [r] = r"
| "alts (r # rs) = Alt r (alts rs)"

text \<open>
  A position in the subject string is a cursor: the characters before it, nearest first,
  and the characters from it on. \<^verbatim>\<open>\b\<close> holds where exactly one of the two
  neighbours is a word character (no neighbour counts as none).
\<close>

type_synonym cursor = "jsstring \<times> jsstring"

definition atWordBoundary :: "cursor \<Rightarrow> bool" where
  "atWordBoundary z =
     ((case fst z of [] \<Rightarrow> False | a # _ \<Rightarrow> isWordChar a)
       \<noteq> (case snd z of [] \<Rightarrow> False | b # _ \<Rightarrow> isWordChar b))"

text \<open>
  The meaning of a pattern: \<open>matches r z z'\<close> when \<open>r\<close> can match from cursor \<open>z\<close> and
  stop at cursor \<open>z'\<close>. \<^verbatim>\<open>RegExp.prototype.test\<close> answers whether some match exists
  from some start, which backtracking (greedy or not) decides; the patterns have no
  back-reference or look-around.
\<close>

inductive matches :: "rx \<Rightarrow> cursor \<Rightarrow> cursor \<Rightarrow> bool" where
  m_eps: "matches Eps z z"
| m_atom: "cls_match c x \<Longrightarrow> matches (Atom c) (bef, x # rest) (x # bef, rest)"
| m_seq: "matches a z z' \<Longrightarrow> matches b z' z'' \<Longrightarrow> matches (Seq a b) z z''"
| m_altl: "matches a z z' \<Longrightarrow> matches (Alt a b) z z'"
| m_altr: "matches b z z' \<Longrightarrow> matches (Alt a b) z z'"
| m_star0: "matches (Star a) z z"
| m_star: "matches a z z' \<Longrightarrow> matches (Star a) z' z'' \<Longrightarrow> matches (Star a) z z''"
| m_upto0: "matches (Upto n a) z z"
| m_upto: "matches a z z' \<Longrightarrow> matches (Upto n a) z' z'' \<Longrightarrow> matches (Upto (Suc n) a) z z''"
| m_wordb: "atWordBoundary z \<Longrightarrow> matches WordB z z"
| m_eoi: "matches Eoi (bef, []) (bef, [])"

text \<open>
  The matcher that runs: \<open>ends r z\<close> lists the cursors where a match of \<open>r\<close> from \<open>z\<close>
  can stop. A star iterates only while an iteration consumes input, so the rest of the
  subject bounds the number of iterations.
\<close>

fun upto_ends :: "(cursor \<Rightarrow> cursor list) \<Rightarrow> nat \<Rightarrow> cursor \<Rightarrow> cursor list" where
  "upto_ends f 0 z = [z]"
| "upto_ends f (Suc n) z = z # concat (map (upto_ends f n) (f z))"

fun star_ends :: "(cursor \<Rightarrow> cursor list) \<Rightarrow> nat \<Rightarrow> cursor \<Rightarrow> cursor list" where
  "star_ends f 0 z = [z]"
| "star_ends f (Suc n) z =
     z # concat (map (star_ends f n) (filter (\<lambda>z'. length (snd z') < length (snd z)) (f z)))"

fun ends :: "rx \<Rightarrow> cursor \<Rightarrow> cursor list" where
  "ends Eps z = [z]"
| "ends (Atom c) z =
     (case snd z of [] \<Rightarrow> [] | x # rest \<Rightarrow> if cls_match c x then [(x # fst z, rest)] else [])"
| "ends (Seq a b) z = concat (map (ends b) (ends a z))"
| "ends (Alt a b) z = ends a z @ ends b z"
| "ends (Star a) z = star_ends (ends a) (length (snd z)) z"
| "ends (Upto n a) z = upto_ends (ends a) n z"
| "ends WordB z = (if atWordBoundary z then [z] else [])"
| "ends Eoi z = (if snd z = [] then [z] else [])"

fun search :: "rx \<Rightarrow> jsstring \<Rightarrow> jsstring \<Rightarrow> bool" where
  "search r bef [] = (ends r (bef, []) \<noteq> [])"
| "search r bef (x # xs) = (ends r (bef, x # xs) \<noteq> [] \<or> search r (x # bef) xs)"

definition rx_test :: "rx \<Rightarrow> jsstring \<Rightarrow> bool" where
  "rx_test r s = search r [] s"

section \<open>String operations the source calls\<close>

text \<open>\<^verbatim>\<open>String.prototype.trim\<close>.\<close>

definition trim :: "jsstring \<Rightarrow> jsstring" where
  "trim s = rev (dropWhile isWhiteSpace (rev (dropWhile isWhiteSpace s)))"

text \<open>\<^verbatim>\<open>s.split(sep)\<close> for a one-character separator: \<open>n\<close> separators give \<open>n + 1\<close> pieces.\<close>

fun splitOn :: "cu \<Rightarrow> jsstring \<Rightarrow> jsstring list" where
  "splitOn sep [] = [[]]"
| "splitOn sep (c # cs) =
     (if c = sep then [] # splitOn sep cs
      else (case splitOn sep cs of [] \<Rightarrow> [[c]] | l # ls \<Rightarrow> (c # l) # ls))"

text \<open>\<^verbatim>\<open>pieces.join(sep)\<close>.\<close>

fun joinWith :: "jsstring \<Rightarrow> jsstring list \<Rightarrow> jsstring" where
  "joinWith sep [] = []"
| "joinWith sep [l] = l"
| "joinWith sep (l # ls) = l @ sep @ joinWith sep ls"

text \<open>\<^verbatim>\<open>xs.slice(-n)\<close> on a string or an array, for \<open>n > 0\<close>: the last \<open>n\<close> elements, or all.\<close>

definition sliceLast :: "nat \<Rightarrow> 'a list \<Rightarrow> 'a list" where
  "sliceLast n xs = drop (length xs - n) xs"

text \<open>\<^verbatim>\<open>s.replace(/\s+/g, " ")\<close>: each maximal run of white space becomes one space.\<close>

fun collapseWhitespace :: "jsstring \<Rightarrow> jsstring" where
  "collapseWhitespace [] = []"
| "collapseWhitespace [c] = (if isWhiteSpace c then [32] else [c])"
| "collapseWhitespace (c # d # cs) =
     (if isWhiteSpace c
      then (if isWhiteSpace d then collapseWhitespace (d # cs) else 32 # collapseWhitespace (d # cs))
      else c # collapseWhitespace (d # cs))"

section \<open>What the model takes as parameters\<close>

text \<open>
  \<open>sanitizeBinaryOutput\<close> (\<^verbatim>\<open>../agents/shell-utils.js\<close>) and \<open>stripAnsi\<close>
  (\<^verbatim>\<open>../terminal/ansi.js\<close>) are imported by the source from files that are not part of
  the sources at hand; \<open>toLowerCase\<close> is the Unicode lower-casing of the language. The
  model takes the three as parameters: every theorem holds for whatever they compute.
\<close>

record env =
  sanitizeBinaryOutput :: "jsstring \<Rightarrow> jsstring"
  stripAnsi :: "jsstring \<Rightarrow> jsstring"
  toLowerCase :: "jsstring \<Rightarrow> jsstring"

section \<open>The data of the source\<close>

datatype CodexRunAutoAnswerMode = Off | Safe | Balanced | Yolo

datatype promptKind = PressEnter | Confirm | Choice

record PromptMatch =
  kind :: promptKind
  promptText :: jsstring
  safeAutoResponse :: "jsstring option"

datatype promptSource = Auto | Manual

record PromptEvent =
  eventKind :: promptKind
  eventText :: jsstring
  source :: promptSource
  response :: jsstring
  atMs :: int

definition MAX_TRANSCRIPT_CHARS :: nat where
  "MAX_TRANSCRIPT_CHARS = 600000"

definition MAX_DETECTION_TAIL :: nat where
  "MAX_DETECTION_TAIL = 5000"

section \<open>The patterns\<close>

text \<open>
  \<^verbatim>\<open>/\b(rm\b|rm -rf|delete|drop\b|destroy|erase|wipe|truncate|reset\b|revert\b|force\b|overwrite|production|prod\b|database|db\b|schema|migration|credential|secret|token|key|sudo|root|git reset --hard|git push --force)\b/i\<close>
\<close>

definition highRiskAlternatives :: "rx list" where
  "highRiskAlternatives =
     [Seq (lit ''rm'') WordB, lit ''rm -rf'', lit ''delete'', Seq (lit ''drop'') WordB,
      lit ''destroy'', lit ''erase'', lit ''wipe'', lit ''truncate'',
      Seq (lit ''reset'') WordB, Seq (lit ''revert'') WordB, Seq (lit ''force'') WordB,
      lit ''overwrite'', lit ''production'', Seq (lit ''prod'') WordB, lit ''database'',
      Seq (lit ''db'') WordB, lit ''schema'', lit ''migration'', lit ''credential'',
      lit ''secret'', lit ''token'', lit ''key'', lit ''sudo'', lit ''root'',
      lit ''git reset --hard'', lit ''git push --force'']"

definition HIGH_RISK_CONFIRM_PATTERN :: rx where
  "HIGH_RISK_CONFIRM_PATTERN = seqs [WordB, alts highRiskAlternatives, WordB]"

text \<open>\<^verbatim>\<open>/press\s+(enter|return)\s+to\s+continue\b/i\<close>\<close>

definition pressEnterPattern :: rx where
  "pressEnterPattern =
     seqs [lit ''press'', Plus (Atom Space), Alt (lit ''enter'') (lit ''return''),
           Plus (Atom Space), lit ''to'', Plus (Atom Space), lit ''continue'', WordB]"

text \<open>\<^verbatim>\<open>(proceed|continue|approve|confirm|are you sure|allow|execute)\<close>\<close>

definition confirmVerbs :: "string list" where
  "confirmVerbs =
     [''proceed'', ''continue'', ''approve'', ''confirm'', ''are you sure'', ''allow'', ''execute'']"

text \<open>
  \<^verbatim>\<open>/(proceed|...|execute)[^.\n]{0,120}(\(.*y\/n.*\)|\[.*y\/n.*\])/i\<close>;
  40 and 41 are the parentheses, 91 and 93 the square brackets, 46 the period, 10 the line feed.
\<close>

definition yesNoGroup :: "cu \<Rightarrow> cu \<Rightarrow> rx" where
  "yesNoGroup l r =
     seqs [Atom (Chr l), Star (Atom AnyChar), lit ''y/n'', Star (Atom AnyChar), Atom (Chr r)]"

definition confirmBracketPattern :: rx where
  "confirmBracketPattern =
     seqs [alts (map lit confirmVerbs), Upto 120 (Atom (NoneOf [46, 10])),
           Alt (yesNoGroup 40 41) (yesNoGroup 91 93)]"

text \<open>\<^verbatim>\<open>/(proceed|...|execute)\s*[?:]?\s*$/i\<close>; 63 is the question mark, 58 the colon.\<close>

definition confirmTailPattern :: rx where
  "confirmTailPattern =
     seqs [alts (map lit confirmVerbs), Star (Atom Space), Opt (Atom (OneOf [63, 58])),
           Star (Atom Space), Eoi]"

text \<open>
  \<^verbatim>\<open>/(enter choice|select( an?)? option|choose( an?)? option|choice\s*[:>])\s*$/i\<close>;
  62 is the greater-than sign.
\<close>

definition choicePattern :: rx where
  "choicePattern =
     seqs [alts [lit ''enter choice'',
                 seqs [lit ''select'', Opt (Seq (lit '' a'') (Opt (lit ''n''))), lit '' option''],
                 seqs [lit ''choose'', Opt (Seq (lit '' a'') (Opt (lit ''n''))), lit '' option''],
                 seqs [lit ''choice'', Star (Atom Space), Atom (OneOf [58, 62])]],
           Star (Atom Space), Eoi]"

section \<open>The prompt classifier\<close>

definition normalizeForPromptDetection :: "env \<Rightarrow> jsstring \<Rightarrow> jsstring" where
  "normalizeForPromptDetection e input = map (\<lambda>c. if c = 13 then 10 else c) (stripAnsi e input)"

definition normalizePromptSignature :: "env \<Rightarrow> jsstring \<Rightarrow> jsstring" where
  "normalizePromptSignature e input = trim (collapseWhitespace (toLowerCase e input))"

text \<open>The last four non-empty trimmed lines (\<open>recent\<close>) and their join (\<open>tail\<close>).\<close>

definition recentLines :: "env \<Rightarrow> jsstring \<Rightarrow> jsstring list" where
  "recentLines e rawTail =
     sliceLast 4 (filter (\<lambda>line. length line > 0)
       (map trim (splitOn 10 (normalizeForPromptDetection e rawTail))))"

definition detectionWindow :: "env \<Rightarrow> jsstring \<Rightarrow> jsstring" where
  "detectionWindow e rawTail = joinWith [32] (recentLines e rawTail)"

text \<open>\<^verbatim>\<open>recent[recent.length - 1] ?? tail\<close>\<close>

definition lastLineOr :: "jsstring list \<Rightarrow> jsstring \<Rightarrow> jsstring" where
  "lastLineOr recent tail = (case recent of [] \<Rightarrow> tail | _ # _ \<Rightarrow> last recent)"

definition detectInteractivePrompt :: "env \<Rightarrow> jsstring \<Rightarrow> PromptMatch option" where
  "detectInteractivePrompt e rawTail =
     (let recent = recentLines e rawTail in
      if length recent = 0 then None
      else
        let tail = joinWith [32] recent in
        if rx_test pressEnterPattern tail
        then Some \<lparr>kind = PressEnter, promptText = lastLineOr recent tail, safeAutoResponse = Some []\<rparr>
        else if rx_test confirmBracketPattern tail \<or> rx_test confirmTailPattern tail
        then Some \<lparr>kind = Confirm, promptText = lastLineOr recent tail, safeAutoResponse = None\<rparr>
        else if rx_test choicePattern tail
        then Some \<lparr>kind = Choice, promptText = lastLineOr recent tail, safeAutoResponse = None\<rparr>
        else None)"

section \<open>The auto-answer policy\<close>

text \<open>\<^verbatim>\<open>prompt.safeAutoResponse ?? ""\<close>\<close>

definition safeResponseOrEmpty :: "PromptMatch \<Rightarrow> jsstring" where
  "safeResponseOrEmpty prompt = (case safeAutoResponse prompt of None \<Rightarrow> [] | Some r \<Rightarrow> r)"

definition resolveAutoResponse :: "CodexRunAutoAnswerMode \<Rightarrow> PromptMatch \<Rightarrow> jsstring option" where
  "resolveAutoResponse mode prompt =
     (if mode = Off then None
      else if mode = Safe
      then (if kind prompt = PressEnter then Some (safeResponseOrEmpty prompt) else None)
      else if mode = Balanced
      then (if kind prompt = PressEnter then Some (safeResponseOrEmpty prompt)
            else if kind prompt = Confirm
            then (if rx_test HIGH_RISK_CONFIRM_PATTERN (promptText prompt) then None else Some (js ''y''))
            else None)
      else if kind prompt = PressEnter then Some (safeResponseOrEmpty prompt)
      else if kind prompt = Confirm then Some (js ''y'')
      else if kind prompt = Choice then Some (js ''1'')
      else None)"

definition ensureTrailingNewline :: "jsstring \<Rightarrow> jsstring" where
  "ensureTrailingNewline input = (if suffix [10] input then input else input @ [10])"

section \<open>The session bridge\<close>

text \<open>
  \<open>runPtyCodexSession\<close> is a closure over mutable variables that callbacks update. The
  model is a record of those variables and one function per callback; what the bridge
  does to the outside (and each \<^verbatim>\<open>promptEvents.push\<close>) is appended to \<open>effects\<close>
  in the order the source performs it. What the input holds beyond \<open>autoAnswer\<close> and
  \<open>logFilePath\<close> matters here only by being present or absent (\<open>onOutput\<close>,
  \<open>promptResponder\<close>); \<open>command\<close>, \<open>cwd\<close> and \<open>timeoutMs\<close> go to the supervisor.

  JavaScript runs one callback at a time, to its end. So a session is a sequence of
  events, each handled by one function of the model; \<^verbatim>\<open>Date.now()\<close> is an
  input of the event that reads it. Two things are taken of the collaborators: neither
  \<^verbatim>\<open>stdin.write\<close> nor the call of the responder delivers a chunk before it returns,
  and a responder that throws at once is a responder whose promise rejects (the
  \<^verbatim>\<open>finally\<close> block and the rejection are the same either way).
\<close>

record PtyCodexRunInput =
  autoAnswer :: CodexRunAutoAnswerMode
  logFilePath :: jsstring
  hasOnOutput :: bool
  hasPromptResponder :: bool

text \<open>
  A thrown value: an \<^verbatim>\<open>Error\<close> object (by its message) or any other value (by what
  \<^verbatim>\<open>String(err)\<close> gives). \<open>asError\<close> is
  \<^verbatim>\<open>err instanceof Error ? err : new Error(String(err))\<close>.
\<close>

datatype thrown = IsError jsstring | NotError jsstring

definition asError :: "thrown \<Rightarrow> thrown" where
  "asError err = (case err of IsError m \<Rightarrow> IsError m | NotError s \<Rightarrow> IsError s)"

text \<open>
  The variable \<open>promptHandling\<close>: \<open>Idle\<close> is \<^verbatim>\<open>null\<close>. Otherwise it holds the
  promise of the running task, whose async body is either suspended at
  \<^verbatim>\<open>await input.promptResponder(prompt)\<close> (\<open>AwaitingResponder\<close>) or has finished,
  fulfilled (\<open>Settling None\<close>) or rejected (\<open>Settling (Some err)\<close>), while its
  \<^verbatim>\<open>.catch\<close> and \<^verbatim>\<open>.finally\<close> callbacks have not run yet.
\<close>

datatype task = Idle | AwaitingResponder PromptMatch | Settling "thrown option"

datatype effect =
    LogWrite jsstring
  | Output jsstring
  | StdinWrite jsstring
  | EventPush PromptEvent
  | ResponderCall PromptMatch
  | CancelRun

record session =
  transcript :: jsstring
  detectTail :: jsstring
  pollSamples :: nat
  suppressedOutput :: jsstring
  suppressUserOutput :: bool
  promptHandling :: task
  promptError :: "thrown option"
  cancelRun :: bool
  runStdin :: bool
  lastPromptSignature :: jsstring
  lastPromptAtMs :: int
  promptEvents :: "PromptEvent list"
  effects :: "effect list"

definition initialSession :: session where
  "initialSession =
     \<lparr>transcript = [], detectTail = [], pollSamples = 0, suppressedOutput = [],
      suppressUserOutput = False, promptHandling = Idle, promptError = None,
      cancelRun = False, runStdin = False, lastPromptSignature = [], lastPromptAtMs = 0,
      promptEvents = [], effects = []\<rparr>"

definition flushSuppressedOutput :: "PtyCodexRunInput \<Rightarrow> session \<Rightarrow> session" where
  "flushSuppressedOutput inp st =
     (if suppressedOutput st = [] then st
      else st\<lparr>effects := effects st @ (if hasOnOutput inp then [Output (suppressedOutput st)] else []),
              suppressedOutput := []\<rparr>)"

definition kindName :: "promptKind \<Rightarrow> jsstring" where
  "kindName k = (case k of PressEnter \<Rightarrow> js ''press-enter'' | Confirm \<Rightarrow> js ''confirm''
                 | Choice \<Rightarrow> js ''choice'')"

text \<open>The template \<^verbatim>\<open>`${prompt.kind}:${normalizePromptSignature(prompt.text)}`\<close>; 58 is the colon.\<close>

definition promptSignature :: "env \<Rightarrow> PromptMatch \<Rightarrow> jsstring" where
  "promptSignature e prompt = kindName (kind prompt) @ [58] @ normalizePromptSignature e (promptText prompt)"

text \<open>
  The message of the error thrown when no responder is configured; 34 is the double quote.
\<close>

definition noResponderError :: "PromptMatch \<Rightarrow> thrown" where
  "noResponderError prompt =
     IsError (js ''Codex requested interactive input ('' @ [34] @ promptText prompt @ [34]
              @ js '') but no prompt responder is available.'')"

text \<open>\<^verbatim>\<open>runStdin?.write(ensureTrailingNewline(response))\<close>\<close>

definition writeStdin :: "jsstring \<Rightarrow> session \<Rightarrow> session" where
  "writeStdin resp st =
     (if runStdin st then st\<lparr>effects := effects st @ [StdinWrite (ensureTrailingNewline resp)]\<rparr>
      else st)"

definition pushPromptEvent :: "PromptEvent \<Rightarrow> session \<Rightarrow> session" where
  "pushPromptEvent ev st = st\<lparr>promptEvents := promptEvents st @ [ev], effects := effects st @ [EventPush ev]\<rparr>"

text \<open>
  The async body of the prompt task, up to its first \<^verbatim>\<open>await\<close> (an async function
  runs synchronously until then, so this part runs inside \<open>maybeHandlePrompt\<close>).
  \<open>evNow\<close> is what \<^verbatim>\<open>Date.now()\<close> returns for \<^verbatim>\<open>atMs\<close>.
\<close>

definition startPromptTask :: "PtyCodexRunInput \<Rightarrow> PromptMatch \<Rightarrow> int \<Rightarrow> session \<Rightarrow> session" where
  "startPromptTask inp prompt evNow st =
     (case resolveAutoResponse (autoAnswer inp) prompt of
        Some autoResponse \<Rightarrow>
          (pushPromptEvent
             \<lparr>eventKind = kind prompt, eventText = promptText prompt, source = Auto,
              response = autoResponse, atMs = evNow\<rparr>
             ((writeStdin autoResponse st)\<lparr>detectTail := []\<rparr>))
          \<lparr>promptHandling := Settling None\<rparr>
      | None \<Rightarrow>
          if \<not> hasPromptResponder inp
          then st\<lparr>promptHandling := Settling (Some (noResponderError prompt))\<rparr>
          else st\<lparr>suppressUserOutput := True,
                  effects := effects st @ [ResponderCall prompt],
                  promptHandling := AwaitingResponder prompt\<rparr>)"

text \<open>\<open>now\<close> is what \<^verbatim>\<open>Date.now()\<close> returns for the signature check.\<close>

definition maybeHandlePrompt :: "env \<Rightarrow> PtyCodexRunInput \<Rightarrow> int \<Rightarrow> int \<Rightarrow> session \<Rightarrow> session" where
  "maybeHandlePrompt e inp now evNow st =
     (if promptHandling st \<noteq> Idle \<or> promptError st \<noteq> None \<or> \<not> runStdin st then st
      else
        case detectInteractivePrompt e (detectTail st) of
          None \<Rightarrow> st
        | Some prompt \<Rightarrow>
            let signature = promptSignature e prompt in
            if signature = lastPromptSignature st \<and> now - lastPromptAtMs st < 2000 then st
            else startPromptTask inp prompt evNow
                   (st\<lparr>lastPromptSignature := signature, lastPromptAtMs := now\<rparr>))"

text \<open>
  The rest of the async body, when the responder's promise fulfils with \<open>response\<close>:
  the remainder of the \<^verbatim>\<open>try\<close> block, then the \<^verbatim>\<open>finally\<close> block.
\<close>

definition responderResolved :: "PtyCodexRunInput \<Rightarrow> jsstring \<Rightarrow> int \<Rightarrow> session \<Rightarrow> session" where
  "responderResolved inp manualResponse evNow st =
     (case promptHandling st of
        AwaitingResponder prompt \<Rightarrow>
          (flushSuppressedOutput inp
             ((pushPromptEvent
                 \<lparr>eventKind = kind prompt, eventText = promptText prompt, source = Manual,
                  response = manualResponse, atMs = evNow\<rparr>
                 ((writeStdin manualResponse st)\<lparr>detectTail := []\<rparr>))
              \<lparr>suppressUserOutput := False\<rparr>))
          \<lparr>promptHandling := Settling None\<rparr>
      | _ \<Rightarrow> st)"

text \<open>
  When the responder throws or its promise rejects with \<open>err\<close>: the \<^verbatim>\<open>finally\<close>
  block, and the async body rejects with \<open>err\<close>.
\<close>

definition responderRejected :: "PtyCodexRunInput \<Rightarrow> thrown \<Rightarrow> session \<Rightarrow> session" where
  "responderRejected inp err st =
     (case promptHandling st of
        AwaitingResponder prompt \<Rightarrow>
          (flushSuppressedOutput inp (st\<lparr>suppressUserOutput := False\<rparr>))
          \<lparr>promptHandling := Settling (Some err)\<rparr>
      | _ \<Rightarrow> st)"

text \<open>
  The \<^verbatim>\<open>.catch\<close> callback (\<^verbatim>\<open>promptError = ...; cancelRun?.()\<close>) and then the
  \<^verbatim>\<open>.finally\<close> callback (\<^verbatim>\<open>promptHandling = null\<close>) of a task whose body finished.
\<close>

definition settlePromptTask :: "session \<Rightarrow> session" where
  "settlePromptTask st =
     (case promptHandling st of
        Settling None \<Rightarrow> st\<lparr>promptHandling := Idle\<rparr>
      | Settling (Some err) \<Rightarrow>
          st\<lparr>promptError := Some (asError err),
             effects := effects st @ (if cancelRun st then [CancelRun] else []),
             promptHandling := Idle\<rparr>
      | _ \<Rightarrow> st)"

text \<open>
  The bookkeeping of \<open>onChunk\<close> for a non-empty sanitized chunk, before it calls
  \<open>maybeHandlePrompt\<close>: the write to the log stream, the transcript, the detection tail,
  and the chunk buffered or passed to \<^verbatim>\<open>input.onOutput\<close>.
\<close>

definition bookChunk :: "env \<Rightarrow> PtyCodexRunInput \<Rightarrow> jsstring \<Rightarrow> session \<Rightarrow> session" where
  "bookChunk e inp chunk st =
     (let st1 = st\<lparr>effects := effects st @ [LogWrite chunk],
                     transcript := sliceLast MAX_TRANSCRIPT_CHARS (transcript st @ chunk),
                     detectTail := sliceLast MAX_DETECTION_TAIL
                                     (detectTail st @ normalizeForPromptDetection e chunk)\<rparr>
      in if suppressUserOutput st1
         then st1\<lparr>suppressedOutput := suppressedOutput st1 @ chunk\<rparr>
         else if hasOnOutput inp then st1\<lparr>effects := effects st1 @ [Output chunk]\<rparr>
         else st1)"

definition onChunk :: "env \<Rightarrow> PtyCodexRunInput \<Rightarrow> jsstring \<Rightarrow> int \<Rightarrow> int \<Rightarrow> session \<Rightarrow> session" where
  "onChunk e inp rawChunk now evNow st =
     (let chunk = sanitizeBinaryOutput e rawChunk in
      if chunk = [] then st
      else maybeHandlePrompt e inp now evNow (bookChunk e inp chunk st))"

text \<open>
  What can happen to a session, one event at a time: \<^verbatim>\<open>supervisor.spawn\<close> resolves
  (with or without a \<^verbatim>\<open>stdin\<close>), a chunk arrives on stdout or stderr (with the two
  clock readings its handling may take), the callbacks of a finished prompt task run, the
  responder's promise fulfils or rejects, the poll timer fires.
\<close>

datatype event =
    Spawned bool
  | Chunk jsstring int int
  | TaskCallbacks
  | ResponderResolved jsstring int
  | ResponderRejected thrown
  | PollTick

fun step :: "env \<Rightarrow> PtyCodexRunInput \<Rightarrow> session \<Rightarrow> event \<Rightarrow> session" where
  "step e inp st (Spawned stdinDefined) = st\<lparr>runStdin := stdinDefined, cancelRun := True\<rparr>"
| "step e inp st (Chunk rawChunk now evNow) = onChunk e inp rawChunk now evNow st"
| "step e inp st TaskCallbacks = settlePromptTask st"
| "step e inp st (ResponderResolved manualResponse evNow) = responderResolved inp manualResponse evNow st"
| "step e inp st (ResponderRejected err) = responderRejected inp err st"
| "step e inp st PollTick = st\<lparr>pollSamples := pollSamples st + 1\<rparr>"

definition run :: "env \<Rightarrow> PtyCodexRunInput \<Rightarrow> event list \<Rightarrow> session" where
  "run e inp evs = foldl (step e inp) initialSession evs"

text \<open>
  The end of \<open>runPtyCodexSession\<close>, once \<^verbatim>\<open>managedRun.wait()\<close> has resolved with
  \<open>ex\<close>: \<^verbatim>\<open>if (promptHandling) await promptHandling; if (promptError) throw promptError;\<close>
  and the result otherwise. \<open>None\<close>: still suspended at \<^verbatim>\<open>await promptHandling\<close>,
  the responder not having answered. \<open>runId\<close> and \<open>pid\<close> of the result are the
  supervisor's and are left out.
\<close>

record 'x PtyCodexRunResult =
  exit :: 'x
  resultPromptEvents :: "PromptEvent list"
  resultTranscript :: jsstring
  resultPollSamples :: nat
  resultLogFilePath :: jsstring

definition finishSession :: "PtyCodexRunInput \<Rightarrow> 'x \<Rightarrow> session \<Rightarrow> (thrown + 'x PtyCodexRunResult) option" where
  "finishSession inp ex st =
     (case promptHandling st of
        AwaitingResponder prompt \<Rightarrow> None
      | _ \<Rightarrow>
          (let st' = settlePromptTask st in
           case promptError st' of
             Some err \<Rightarrow> Some (Inl err)
           | None \<Rightarrow>
               Some (Inr \<lparr>exit = ex, resultPromptEvents = promptEvents st',
                          resultTranscript = transcript st', resultPollSamples = pollSamples st',
                          resultLogFilePath = logFilePath inp\<rparr>)))"

section \<open>Notions the statements use\<close>

text \<open>
  \<open>spans r bef m rest\<close>: pattern \<open>r\<close> matches exactly the characters \<open>m\<close>, standing
  after \<open>bef\<close> (nearest first) and before \<open>rest\<close>. \<open>ciEq m w\<close>: the string \<open>m\<close> is the
  literal \<open>w\<close> up to the case of ASCII letters.
\<close>

definition spans :: "rx \<Rightarrow> jsstring \<Rightarrow> jsstring \<Rightarrow> jsstring \<Rightarrow> bool" where
  "spans r bef m rest = matches r (bef, m @ rest) (rev m @ bef, rest)"

definition ciEq :: "jsstring \<Rightarrow> string \<Rightarrow> bool" where
  "ciEq m w = list_all2 (\<lambda>x c. canon x = canon (of_char c)) m w"

text \<open>
  What a session has received: the sanitized chunks of its chunk events, concatenated in
  arrival order; and the same after \<open>normalizeForPromptDetection\<close>, chunk by chunk
  (a chunk that sanitizes to the empty string is dropped by \<open>onChunk\<close>).
\<close>

fun outputReceived :: "env \<Rightarrow> event list \<Rightarrow> jsstring" where
  "outputReceived e [] = []"
| "outputReceived e (Chunk rawChunk now evNow # evs) =
     sanitizeBinaryOutput e rawChunk @ outputReceived e evs"
| "outputReceived e (ev # evs) = outputReceived e evs"

fun outputNormalized :: "env \<Rightarrow> event list \<Rightarrow> jsstring" where
  "outputNormalized e [] = []"
| "outputNormalized e (Chunk rawChunk now evNow # evs) =
     (if sanitizeBinaryOutput e rawChunk = [] then []
      else normalizeForPromptDetection e (sanitizeBinaryOutput e rawChunk)) @ outputNormalized e evs"
| "outputNormalized e (ev # evs) = outputNormalized e evs"

text \<open>
  A run of chunk events, each with its clock readings, and the non-empty sanitized chunks
  it delivers.
\<close>

definition chunkEvents :: "(jsstring \<times> int \<times> int) list \<Rightarrow> event list" where
  "chunkEvents cs = map (\<lambda>(rawChunk, now, evNow). Chunk rawChunk now evNow) cs"

definition sanitizedChunks :: "env \<Rightarrow> (jsstring \<times> int \<times> int) list \<Rightarrow> jsstring list" where
  "sanitizedChunks e cs =
     filter (\<lambda>chunk. chunk \<noteq> []) (map (\<lambda>(rawChunk, now, evNow). sanitizeBinaryOutput e rawChunk) cs)"

text \<open>
  The words of the prompt patterns, said of strings. A white-space run is one or more
  white-space characters; a place is not before (not after) a word character when the next
  (the previous) character, if any, is none of \<^verbatim>\<open>[A-Za-z0-9_]\<close>.
\<close>

definition whiteSpaceRun :: "jsstring \<Rightarrow> bool" where
  "whiteSpaceRun s = (s \<noteq> [] \<and> (\<forall>x \<in> set s. isWhiteSpace x))"

definition notBeforeWordChar :: "jsstring \<Rightarrow> bool" where
  "notBeforeWordChar post = (case post of [] \<Rightarrow> True | c # _ \<Rightarrow> \<not> isWordChar c)"

definition notAfterWordChar :: "jsstring \<Rightarrow> bool" where
  "notAfterWordChar pre = (case rev pre of [] \<Rightarrow> True | c # _ \<Rightarrow> \<not> isWordChar c)"

text \<open>
  The phrase of the first pattern: the words \<open>press\<close>, \<open>enter\<close> or \<open>return\<close>,
  \<open>to\<close>, \<open>continue\<close> in any letter case, separated by white-space runs; a window
  contains it when it stands there and no word character follows it.
\<close>

definition isPressEnterPhrase :: "jsstring \<Rightarrow> bool" where
  "isPressEnterPhrase m =
     (\<exists>w1 s1 w2 s2 w3 s3 w4.
        m = w1 @ s1 @ w2 @ s2 @ w3 @ s3 @ w4
        \<and> ciEq w1 ''press'' \<and> whiteSpaceRun s1
        \<and> (ciEq w2 ''enter'' \<or> ciEq w2 ''return'') \<and> whiteSpaceRun s2
        \<and> ciEq w3 ''to'' \<and> whiteSpaceRun s3
        \<and> ciEq w4 ''continue'')"

definition containsPressEnterPhrase :: "jsstring \<Rightarrow> bool" where
  "containsPressEnterPhrase w =
     (\<exists>pre m post. w = pre @ m @ post \<and> isPressEnterPhrase m \<and> notBeforeWordChar post)"

text \<open>
  Containing the phrase in the words of the specification: the phrase stands somewhere in
  the window, whatever follows it.
\<close>

definition holdsPressEnterPhrase :: "jsstring \<Rightarrow> bool" where
  "holdsPressEnterPhrase w = (\<exists>pre m post. w = pre @ m @ post \<and> isPressEnterPhrase m)"

text \<open>
  The cues of the two confirm patterns: a confirmation verb in any letter case; a group in
  parentheses (40, 41) or square brackets (91, 93) that holds \<open>y/n\<close> in any letter case
  and no line terminator; the verb followed, after at most 120 characters that are neither
  a period (46) nor a line feed (10), by such a group; the verb followed by nothing but
  white space, at most one question mark (63) or colon (58) and white space, up to the end.
\<close>

definition isConfirmVerb :: "jsstring \<Rightarrow> bool" where
  "isConfirmVerb v = (\<exists>t \<in> set confirmVerbs. ciEq v t)"

definition isYesNoGroup :: "jsstring \<Rightarrow> bool" where
  "isYesNoGroup g =
     (\<exists>l a yn b r.
        g = [l] @ a @ yn @ b @ [r]
        \<and> ((l = 40 \<and> r = 41) \<or> (l = 91 \<and> r = 93))
        \<and> ciEq yn ''y/n''
        \<and> (\<forall>x \<in> set a. \<not> isLineTerminator x) \<and> (\<forall>x \<in> set b. \<not> isLineTerminator x))"

definition confirmBracketCue :: "jsstring \<Rightarrow> bool" where
  "confirmBracketCue w =
     (\<exists>pre v gap g post.
        w = pre @ v @ gap @ g @ post
        \<and> isConfirmVerb v
        \<and> length gap \<le> 120 \<and> (\<forall>x \<in> set gap. x \<noteq> 46 \<and> x \<noteq> 10)
        \<and> isYesNoGroup g)"

definition confirmTailCue :: "jsstring \<Rightarrow> bool" where
  "confirmTailCue w =
     (\<exists>pre v s1 q s2.
        w = pre @ v @ s1 @ q @ s2
        \<and> isConfirmVerb v
        \<and> (\<forall>x \<in> set s1. isWhiteSpace x)
        \<and> (q = [] \<or> q = [63] \<or> q = [58])
        \<and> (\<forall>x \<in> set s2. isWhiteSpace x))"

text \<open>
  The confirm cue in the words of the specification: a confirmation verb followed either
  by a bracketed yes/no indicator or by a trailing question mark or colon at the end of
  the window.
\<close>

definition specConfirmCue :: "jsstring \<Rightarrow> bool" where
  "specConfirmCue w =
     (\<exists>pre v rest.
        w = pre @ v @ rest \<and> isConfirmVerb v
        \<and> ((\<exists>a g b. rest = a @ g @ b \<and> isYesNoGroup g)
           \<or> (rest \<noteq> [] \<and> (last rest = 63 \<or> last rest = 58))))"

section \<open>Inputs of the examples\<close>

text \<open>
  An environment in which sanitizing and stripping change nothing and lower-casing is the
  ASCII one, three inputs (mode \<open>yolo\<close> without a responder, mode \<open>off\<close> with and
  without one; an observer in each) and the prompt matches of \<^verbatim>\<open>Proceed? (y/N)\<close>
  and \<^verbatim>\<open>Enter choice:\<close>.
\<close>

definition plainEnv :: env where
  "plainEnv =
     \<lparr>sanitizeBinaryOutput = (\<lambda>s. s), stripAnsi = (\<lambda>s. s),
      toLowerCase = map (\<lambda>c. if 65 \<le> c \<and> c \<le> 90 then c + 32 else c)\<rparr>"

definition yoloInput :: PtyCodexRunInput where
  "yoloInput = \<lparr>autoAnswer = Yolo, logFilePath = js ''run.log'', hasOnOutput = True, hasPromptResponder = False\<rparr>"

definition manualInput :: PtyCodexRunInput where
  "manualInput = \<lparr>autoAnswer = Off, logFilePath = js ''run.log'', hasOnOutput = True, hasPromptResponder = True\<rparr>"

definition unattendedInput :: PtyCodexRunInput where
  "unattendedInput = \<lparr>autoAnswer = Off, logFilePath = js ''run.log'', hasOnOutput = True, hasPromptResponder = False\<rparr>"

definition proceedPrompt :: PromptMatch where
  "proceedPrompt = \<lparr>kind = Confirm, promptText = js ''Proceed? (y/N)'', safeAutoResponse = None\<rparr>"


section \<open>The matcher computes the meaning of a pattern\<close>

lemma matches_shape:
  "matches r z z' \<Longrightarrow> \<exists>m. snd z = m @ snd z' \<and> fst z' = rev m @ fst z"
proof (induction rule: matches.induct)
  case (m_atom c x bef rest)
  have "snd (bef, x # rest) = [x] @ snd (x # bef, rest) \<and> fst (x # bef, rest) = rev [x] @ fst (bef, x # rest)"
    by simp
  then show ?case by blast
next
  case (m_seq a z z' b z'')
  then obtain m1 m2 where "snd z = m1 @ snd z'" "fst z' = rev m1 @ fst z"
    "snd z' = m2 @ snd z''" "fst z'' = rev m2 @ fst z'" by blast
  then have "snd z = (m1 @ m2) @ snd z'' \<and> fst z'' = rev (m1 @ m2) @ fst z" by simp
  then show ?case by blast
next
  case (m_star a z z' z'')
  then obtain m1 m2 where "snd z = m1 @ snd z'" "fst z' = rev m1 @ fst z"
    "snd z' = m2 @ snd z''" "fst z'' = rev m2 @ fst z'" by blast
  then have "snd z = (m1 @ m2) @ snd z'' \<and> fst z'' = rev (m1 @ m2) @ fst z" by simp
  then show ?case by blast
next
  case (m_upto a z z' n z'')
  then obtain m1 m2 where "snd z = m1 @ snd z'" "fst z' = rev m1 @ fst z"
    "snd z' = m2 @ snd z''" "fst z'' = rev m2 @ fst z'" by blast
  then have "snd z = (m1 @ m2) @ snd z'' \<and> fst z'' = rev (m1 @ m2) @ fst z" by simp
  then show ?case by blast
qed auto

lemma star_ends_Suc_mem:
  "y \<in> set (star_ends f (Suc n) z) \<longleftrightarrow>
     y = z \<or> (\<exists>z1 \<in> set (f z). length (snd z1) < length (snd z) \<and> y \<in> set (star_ends f n z1))"
  by auto

lemma upto_ends_sound:
  assumes f: "\<And>z z'. z' \<in> set (f z) \<Longrightarrow> matches a z z'"
  shows "z' \<in> set (upto_ends f n z) \<Longrightarrow> matches (Upto n a) z z'"
proof (induction n arbitrary: z)
  case 0
  then show ?case by (simp add: m_upto0)
next
  case (Suc n)
  from Suc.prems consider "z' = z" | z1 where "z1 \<in> set (f z)" "z' \<in> set (upto_ends f n z1)"
    by auto
  then show ?case
  proof cases
    case 1
    then show ?thesis by (simp add: m_upto0)
  next
    case 2
    then show ?thesis using Suc.IH f m_upto by blast
  qed
qed

lemma star_ends_sound:
  assumes f: "\<And>z z'. z' \<in> set (f z) \<Longrightarrow> matches a z z'"
  shows "z' \<in> set (star_ends f n z) \<Longrightarrow> matches (Star a) z z'"
proof (induction n arbitrary: z)
  case 0
  then show ?case by (simp add: m_star0)
next
  case (Suc n)
  from Suc.prems consider "z' = z" | z1 where "z1 \<in> set (f z)" "z' \<in> set (star_ends f n z1)"
    unfolding star_ends_Suc_mem by blast
  then show ?case
  proof cases
    case 1
    then show ?thesis by (simp add: m_star0)
  next
    case 2
    then show ?thesis using Suc.IH f m_star by blast
  qed
qed

lemma ends_sound: "z' \<in> set (ends r z) \<Longrightarrow> matches r z z'"
proof (induction r arbitrary: z z')
  case Eps
  then show ?case by (simp add: m_eps)
next
  case (Atom c)
  then show ?case by (cases z) (auto split: list.splits if_splits intro: m_atom)
next
  case (Seq a b)
  from Seq.prems obtain z1 where "z1 \<in> set (ends a z)" "z' \<in> set (ends b z1)" by auto
  then show ?case using Seq.IH m_seq by blast
next
  case (Alt a b)
  from Alt.prems have "z' \<in> set (ends a z) \<or> z' \<in> set (ends b z)" by simp
  then show ?case using Alt.IH m_altl m_altr by blast
next
  case (Star a)
  from Star.prems have "z' \<in> set (star_ends (ends a) (length (snd z)) z)" by simp
  then show ?case using star_ends_sound [of "ends a" a] Star.IH by blast
next
  case (Upto n a)
  from Upto.prems have "z' \<in> set (upto_ends (ends a) n z)" by simp
  then show ?case using upto_ends_sound [of "ends a" a] Upto.IH by blast
next
  case WordB
  then show ?case by (auto split: if_splits intro: m_wordb)
next
  case Eoi
  then show ?case by (cases z) (auto split: if_splits intro: m_eoi)
qed

lemma upto_ends_self: "z \<in> set (upto_ends f n z)"
  by (cases n) simp_all

lemma star_ends_self: "z \<in> set (star_ends f n z)"
  by (cases n) simp_all

lemma star_ends_fuel_Suc: "set (star_ends f n z) \<subseteq> set (star_ends f (Suc n) z)"
proof (induction n arbitrary: z)
  case 0
  then show ?case by simp
next
  case (Suc n)
  show ?case
  proof
    fix y assume "y \<in> set (star_ends f (Suc n) z)"
    then consider "y = z"
      | z1 where "z1 \<in> set (f z)" "length (snd z1) < length (snd z)" "y \<in> set (star_ends f n z1)"
      unfolding star_ends_Suc_mem by blast
    then show "y \<in> set (star_ends f (Suc (Suc n)) z)"
    proof cases
      case 1
      then show ?thesis unfolding star_ends_Suc_mem by blast
    next
      case 2
      from 2(3) Suc.IH have "y \<in> set (star_ends f (Suc n) z1)" by blast
      with 2(1,2) show ?thesis unfolding star_ends_Suc_mem [of y f "Suc n"] by blast
    qed
  qed
qed

lemma star_ends_fuel_mono: "n \<le> k \<Longrightarrow> set (star_ends f n z) \<subseteq> set (star_ends f k z)"
proof (induction k)
  case 0
  then show ?case by simp
next
  case (Suc k)
  then show ?case using star_ends_fuel_Suc [of f k z] by (cases "n = Suc k") auto
qed

lemma ends_complete: "matches r z z' \<Longrightarrow> z' \<in> set (ends r z)"
proof (induction rule: matches.induct)
  case (m_star a z z' z'')
  from matches_shape [OF m_star.hyps(1)] obtain m where m: "snd z = m @ snd z'" "fst z' = rev m @ fst z"
    by blast
  show ?case
  proof (cases "m = []")
    case True
    with m have "z' = z" by (simp add: prod_eq_iff)
    with m_star.IH show ?thesis by simp
  next
    case False
    with m obtain k where k: "length (snd z) = Suc k" "length (snd z') \<le> k"
      by (cases m) auto
    have "z'' \<in> set (star_ends (ends a) k z')"
      using m_star.IH(2) star_ends_fuel_mono [OF k(2), of "ends a" z'] by auto
    moreover have "length (snd z') < length (snd z)" using k by simp
    ultimately have "z'' \<in> set (star_ends (ends a) (Suc k) z)"
      unfolding star_ends_Suc_mem using m_star.IH(1) by blast
    then show ?thesis using k(1) by simp
  qed
qed (auto simp: upto_ends_self star_ends_self)

lemma ends_iff: "z' \<in> set (ends r z) \<longleftrightarrow> matches r z z'"
  using ends_sound ends_complete by blast

lemma ends_nonempty_iff: "ends r z \<noteq> [] \<longleftrightarrow> (\<exists>z'. matches r z z')"
proof
  assume "ends r z \<noteq> []"
  then have "hd (ends r z) \<in> set (ends r z)" by simp
  then show "\<exists>z'. matches r z z'" using ends_sound by blast
next
  assume "\<exists>z'. matches r z z'"
  then obtain z' where "z' \<in> set (ends r z)" using ends_complete by blast
  then show "ends r z \<noteq> []" by (cases "ends r z") simp_all
qed

lemma search_iff:
  "search r bef s \<longleftrightarrow> (\<exists>pre rest z'. s = pre @ rest \<and> matches r (rev pre @ bef, rest) z')"
proof (induction s arbitrary: bef)
  case Nil
  show ?case by (simp add: ends_nonempty_iff del: split_paired_Ex)
next
  case (Cons x xs)
  have e: "ends r (bef, x # xs) \<noteq> [] \<longleftrightarrow> (\<exists>z'. matches r (bef, x # xs) z')"
    by (rule ends_nonempty_iff)
  show ?case
  proof
    assume "search r bef (x # xs)"
    then have "ends r (bef, x # xs) \<noteq> [] \<or> search r (x # bef) xs" by simp
    then consider "\<exists>z'. matches r (bef, x # xs) z'" | "search r (x # bef) xs"
      unfolding e by blast
    then show "\<exists>pre rest z'. x # xs = pre @ rest \<and> matches r (rev pre @ bef, rest) z'"
    proof cases
      case 1
      then obtain z' where "matches r (rev [] @ bef, x # xs) z'" by auto
      then show ?thesis by (metis append_Nil)
    next
      case 2
      with Cons.IH obtain pre rest z' where "xs = pre @ rest" "matches r (rev pre @ x # bef, rest) z'"
        by blast
      then have "x # xs = (x # pre) @ rest \<and> matches r (rev (x # pre) @ bef, rest) z'" by simp
      then show ?thesis by blast
    qed
  next
    assume "\<exists>pre rest z'. x # xs = pre @ rest \<and> matches r (rev pre @ bef, rest) z'"
    then obtain pre rest z' where p: "x # xs = pre @ rest" "matches r (rev pre @ bef, rest) z'"
      by blast
    show "search r bef (x # xs)"
    proof (cases pre)
      case Nil
      with p have "matches r (bef, x # xs) z'" by simp
      then have "ends r (bef, x # xs) \<noteq> []" unfolding e by blast
      then show ?thesis by simp
    next
      case (Cons y ys)
      with p have "xs = ys @ rest" "matches r (rev ys @ x # bef, rest) z'" by auto
      with Cons.IH have "search r (x # bef) xs" by blast
      then show ?thesis by simp
    qed
  qed
qed

lemma rx_test_iff:
  "rx_test r s \<longleftrightarrow> (\<exists>pre m post. s = pre @ m @ post \<and> matches r (rev pre, m @ post) (rev m @ rev pre, post))"
proof
  assume "rx_test r s"
  then obtain pre rest z' where p: "s = pre @ rest" "matches r (rev pre, rest) z'"
    by (auto simp: rx_test_def search_iff)
  from matches_shape [OF p(2)] obtain m where "rest = m @ snd z'" "fst z' = rev m @ rev pre" by auto
  with p have "s = pre @ m @ snd z' \<and> matches r (rev pre, m @ snd z') (rev m @ rev pre, snd z')"
    by (cases z') auto
  then show "\<exists>pre m post. s = pre @ m @ post \<and> matches r (rev pre, m @ post) (rev m @ rev pre, post)"
    by blast
next
  assume "\<exists>pre m post. s = pre @ m @ post \<and> matches r (rev pre, m @ post) (rev m @ rev pre, post)"
  then show "rx_test r s" by (auto simp: rx_test_def search_iff)
qed

section \<open>What each construct matches\<close>

inductive_cases m_epsE: "matches Eps z z'"
inductive_cases m_atomE: "matches (Atom c) z z'"
inductive_cases m_seqE: "matches (Seq a b) z z'"
inductive_cases m_altE: "matches (Alt a b) z z'"
inductive_cases m_wordbE: "matches WordB z z'"
inductive_cases m_eoiE: "matches Eoi z z'"

lemma rx_test_spans:
  "rx_test r s \<longleftrightarrow> (\<exists>pre m post. s = pre @ m @ post \<and> spans r (rev pre) m post)"
  by (simp add: rx_test_iff spans_def)

lemma spans_Eps: "spans Eps bef m rest \<longleftrightarrow> m = []"
  by (auto simp: spans_def intro: m_eps elim: m_epsE)

lemma spans_Atom: "spans (Atom c) bef m rest \<longleftrightarrow> (\<exists>x. m = [x] \<and> cls_match c x)"
  by (auto simp: spans_def intro: m_atom elim!: m_atomE)

lemma spans_WordB: "spans WordB bef m rest \<longleftrightarrow> m = [] \<and> atWordBoundary (bef, rest)"
  by (auto simp: spans_def intro: m_wordb elim!: m_wordbE)

lemma spans_Eoi: "spans Eoi bef m rest \<longleftrightarrow> m = [] \<and> rest = []"
  by (auto simp: spans_def intro: m_eoi elim!: m_eoiE)

lemma spans_Alt: "spans (Alt a b) bef m rest \<longleftrightarrow> spans a bef m rest \<or> spans b bef m rest"
  by (auto simp: spans_def intro: m_altl m_altr elim!: m_altE)

lemma spans_Seq:
  "spans (Seq a b) bef m rest \<longleftrightarrow>
     (\<exists>m1 m2. m = m1 @ m2 \<and> spans a bef m1 (m2 @ rest) \<and> spans b (rev m1 @ bef) m2 rest)"
proof
  assume "spans (Seq a b) bef m rest"
  then obtain z' where z: "matches a (bef, m @ rest) z'" "matches b z' (rev m @ bef, rest)"
    unfolding spans_def by (blast elim: m_seqE)
  from matches_shape [OF z(1)] obtain m1 where m1: "m @ rest = m1 @ snd z'" "fst z' = rev m1 @ bef"
    by auto
  from matches_shape [OF z(2)] obtain m2 where m2: "snd z' = m2 @ rest" "rev m @ bef = rev m2 @ fst z'"
    by auto
  from m1 m2 have "m @ rest = (m1 @ m2) @ rest" by simp
  then have m: "m = m1 @ m2" by (simp only: append_same_eq)
  have "z' = (rev m1 @ bef, m2 @ rest)" using m1 m2 by (simp add: prod_eq_iff)
  with z m have "spans a bef m1 (m2 @ rest) \<and> spans b (rev m1 @ bef) m2 rest"
    by (simp add: spans_def)
  with m show "\<exists>m1 m2. m = m1 @ m2 \<and> spans a bef m1 (m2 @ rest) \<and> spans b (rev m1 @ bef) m2 rest"
    by blast
next
  assume "\<exists>m1 m2. m = m1 @ m2 \<and> spans a bef m1 (m2 @ rest) \<and> spans b (rev m1 @ bef) m2 rest"
  then obtain m1 m2 where "m = m1 @ m2" "spans a bef m1 (m2 @ rest)" "spans b (rev m1 @ bef) m2 rest"
    by blast
  then show "spans (Seq a b) bef m rest"
    unfolding spans_def using m_seq [of a "(bef, (m1 @ m2) @ rest)" "(rev m1 @ bef, m2 @ rest)" b "(rev (m1 @ m2) @ bef, rest)"]
    by simp
qed

lemma spans_Opt: "spans (Opt a) bef m rest \<longleftrightarrow> spans a bef m rest \<or> m = []"
  by (simp add: Opt_def spans_Alt spans_Eps)

lemma spans_lit: "spans (lit w) bef m rest \<longleftrightarrow> ciEq m w"
proof (induction w arbitrary: bef m)
  case Nil
  then show ?case by (simp add: spans_Eps ciEq_def)
next
  case (Cons c cs)
  show ?case
  proof
    assume "spans (lit (c # cs)) bef m rest"
    then obtain x m2 where "m = [x] @ m2" "canon x = canon (of_char c)" "spans (lit cs) (rev [x] @ bef) m2 rest"
      by (auto simp: spans_Seq spans_Atom)
    then show "ciEq m (c # cs)" using Cons.IH by (simp add: ciEq_def)
  next
    assume "ciEq m (c # cs)"
    then obtain x m2 where x: "m = x # m2" "canon x = canon (of_char c)" "ciEq m2 cs"
      by (auto simp: ciEq_def list_all2_Cons2)
    then have "spans (lit cs) (rev [x] @ bef) m2 rest" using Cons.IH by blast
    with x have "m = [x] @ m2 \<and> spans (Atom (Chr (of_char c))) bef [x] (m2 @ rest) \<and> spans (lit cs) (rev [x] @ bef) m2 rest"
      by (simp add: spans_Atom)
    then show "spans (lit (c # cs)) bef m rest" unfolding lit.simps spans_Seq by blast
  qed
qed

lemma star_atom_shape:
  "matches r z z' \<Longrightarrow> r = Star (Atom c) \<Longrightarrow>
     \<exists>m. snd z = m @ snd z' \<and> fst z' = rev m @ fst z \<and> (\<forall>x \<in> set m. cls_match c x)"
proof (induction rule: matches.induct)
  case (m_star a z z' z'')
  then have a: "matches (Atom c) z z'" by simp
  then obtain x where x: "snd z = [x] @ snd z'" "fst z' = rev [x] @ fst z" "cls_match c x"
    by (auto elim!: m_atomE)
  from m_star obtain m where "snd z' = m @ snd z''" "fst z'' = rev m @ fst z'" "\<forall>x \<in> set m. cls_match c x"
    by blast
  with x have "snd z = (x # m) @ snd z'' \<and> fst z'' = rev (x # m) @ fst z \<and> (\<forall>y \<in> set (x # m). cls_match c y)"
    by simp
  then show ?case by blast
qed auto

lemma spans_Star_Atom: "spans (Star (Atom c)) bef m rest \<longleftrightarrow> (\<forall>x \<in> set m. cls_match c x)"
proof
  assume "spans (Star (Atom c)) bef m rest"
  then show "\<forall>x \<in> set m. cls_match c x"
    unfolding spans_def using star_atom_shape [of "Star (Atom c)" "(bef, m @ rest)" "(rev m @ bef, rest)" c]
    by auto
next
  show "\<forall>x \<in> set m. cls_match c x \<Longrightarrow> spans (Star (Atom c)) bef m rest"
  proof (induction m arbitrary: bef)
    case Nil
    then show ?case by (simp add: spans_def m_star0)
  next
    case (Cons x xs)
    then have "matches (Atom c) (bef, x # xs @ rest) (x # bef, xs @ rest)"
      and "matches (Star (Atom c)) (x # bef, xs @ rest) (rev xs @ x # bef, rest)"
      by (auto simp: spans_def intro: m_atom)
    then show ?case unfolding spans_def using m_star by fastforce
  qed
qed

lemma upto_atom_shape:
  "matches r z z' \<Longrightarrow> r = Upto n (Atom c) \<Longrightarrow>
     \<exists>m. snd z = m @ snd z' \<and> fst z' = rev m @ fst z \<and> length m \<le> n \<and> (\<forall>x \<in> set m. cls_match c x)"
proof (induction arbitrary: n rule: matches.induct)
  case (m_upto a z z' k z'')
  then have a: "matches (Atom c) z z'" and n: "n = Suc k" by simp_all
  then obtain x where x: "snd z = [x] @ snd z'" "fst z' = rev [x] @ fst z" "cls_match c x"
    by (auto elim!: m_atomE)
  from m_upto have "\<exists>m. snd z' = m @ snd z'' \<and> fst z'' = rev m @ fst z' \<and> length m \<le> k \<and> (\<forall>x \<in> set m. cls_match c x)"
    by blast
  then obtain m where "snd z' = m @ snd z''" "fst z'' = rev m @ fst z'" "length m \<le> k" "\<forall>x \<in> set m. cls_match c x"
    by blast
  with x n have "snd z = (x # m) @ snd z'' \<and> fst z'' = rev (x # m) @ fst z \<and> length (x # m) \<le> n \<and> (\<forall>y \<in> set (x # m). cls_match c y)"
    by simp
  then show ?case by blast
qed auto

lemma spans_Upto_Atom:
  "spans (Upto n (Atom c)) bef m rest \<longleftrightarrow> length m \<le> n \<and> (\<forall>x \<in> set m. cls_match c x)"
proof
  assume "spans (Upto n (Atom c)) bef m rest"
  then show "length m \<le> n \<and> (\<forall>x \<in> set m. cls_match c x)"
    unfolding spans_def using upto_atom_shape [of "Upto n (Atom c)" "(bef, m @ rest)" "(rev m @ bef, rest)" n c]
    by auto
next
  show "length m \<le> n \<and> (\<forall>x \<in> set m. cls_match c x) \<Longrightarrow> spans (Upto n (Atom c)) bef m rest"
  proof (induction m arbitrary: bef n)
    case Nil
    then show ?case by (simp add: spans_def m_upto0)
  next
    case (Cons x xs)
    then obtain k where k: "n = Suc k" "length xs \<le> k" by (cases n) auto
    with Cons have "matches (Atom c) (bef, x # xs @ rest) (x # bef, xs @ rest)"
      and "matches (Upto k (Atom c)) (x # bef, xs @ rest) (rev xs @ x # bef, rest)"
      by (auto simp: spans_def intro: m_atom)
    then show ?case unfolding spans_def k using m_upto by fastforce
  qed
qed

lemma spans_Plus_Atom:
  "spans (Plus (Atom c)) bef m rest \<longleftrightarrow> m \<noteq> [] \<and> (\<forall>x \<in> set m. cls_match c x)"
proof
  assume "spans (Plus (Atom c)) bef m rest"
  then show "m \<noteq> [] \<and> (\<forall>x \<in> set m. cls_match c x)"
    by (auto simp: Plus_def spans_Seq spans_Atom spans_Star_Atom)
next
  assume "m \<noteq> [] \<and> (\<forall>x \<in> set m. cls_match c x)"
  then obtain x m2 where "m = [x] @ m2" "cls_match c x" "\<forall>y \<in> set m2. cls_match c y"
    by (cases m) auto
  then have "m = [x] @ m2 \<and> spans (Atom c) bef [x] (m2 @ rest) \<and> spans (Star (Atom c)) (rev [x] @ bef) m2 rest"
    by (simp add: spans_Atom spans_Star_Atom)
  then show "spans (Plus (Atom c)) bef m rest"
    unfolding Plus_def spans_Seq by blast
qed

lemma spans_alts_lit: "spans (alts (map lit ws)) bef m rest \<longleftrightarrow> (\<exists>w \<in> set ws. ciEq m w)"
proof (induction ws rule: induct_list012)
  case 1
  then show ?case by (simp add: spans_Atom)
next
  case (2 w)
  then show ?case by (simp add: spans_lit)
next
  case (3 w v ws)
  then show ?case by (simp add: spans_Alt spans_lit)
qed

section \<open>Evaluation of the model on concrete inputs\<close>

lemma upto_ends_numeral:
  "upto_ends f (numeral k) z = z # concat (map (upto_ends f (pred_numeral k)) (f z))"
  by (simp add: numeral_eq_Suc)

lemmas eval_rx =
  js_def rx_test_def Plus_def Opt_def isWhiteSpace_def canon_def isWordChar_def
  isLineTerminator_def atWordBoundary_def upto_ends_numeral

lemmas eval_patterns =
  pressEnterPattern_def confirmVerbs_def yesNoGroup_def confirmBracketPattern_def confirmTailPattern_def
  choicePattern_def HIGH_RISK_CONFIRM_PATTERN_def highRiskAlternatives_def

lemmas eval_detect =
  trim_def sliceLast_def normalizeForPromptDetection_def recentLines_def
  detectInteractivePrompt_def lastLineOr_def Let_def

lemmas eval_examples = plainEnv_def yoloInput_def manualInput_def unattendedInput_def proceedPrompt_def

section \<open>What the prompt patterns match\<close>

lemma rx_test_spansI: "spans r (rev pre) m post \<Longrightarrow> rx_test r (pre @ m @ post)"
  unfolding rx_test_spans by blast

lemma spans_SeqI:
  "spans a bef m1 (m2 @ rest) \<Longrightarrow> spans b (rev m1 @ bef) m2 rest \<Longrightarrow> spans (Seq a b) bef (m1 @ m2) rest"
  unfolding spans_Seq by blast

lemma spans_SeqE:
  assumes "spans (Seq a b) bef m rest"
  obtains m1 m2 where "m = m1 @ m2" "spans a bef m1 (m2 @ rest)" "spans b (rev m1 @ bef) m2 rest"
  using assms unfolding spans_Seq by blast

lemma spans_Plus_Space: "spans (Plus (Atom Space)) bef m rest \<longleftrightarrow> whiteSpaceRun m"
  by (simp add: spans_Plus_Atom whiteSpaceRun_def)

lemma canon_word: "canon x = canon c \<Longrightarrow> isWordChar c \<Longrightarrow> isWordChar x"
  by (auto simp: canon_def isWordChar_def split: if_splits)

lemma ciEq_last_word:
  assumes "ciEq m w" and "w \<noteq> []" and "isWordChar (of_char (last w))"
  shows "m \<noteq> [] \<and> isWordChar (last m)"
proof -
  from assms(1) have l: "length m = length w" by (simp add: ciEq_def list_all2_lengthD)
  with assms(2) have ne: "m \<noteq> []" by auto
  from assms(1) have "list_all2 (\<lambda>x c. canon x = canon (of_char c)) m w" by (simp add: ciEq_def)
  from list_all2_nthD [OF this, of "length m - 1"] ne
  have "canon (m ! (length m - 1)) = canon (of_char (w ! (length m - 1)))" by simp
  with ne assms(2) l have "canon (last m) = canon (of_char (last w))"
    by (simp add: last_conv_nth)
  with assms(3) ne show ?thesis using canon_word by blast
qed

lemma ciEq_hd_word:
  assumes "ciEq m w" and "w \<noteq> []" and "isWordChar (of_char (hd w))"
  shows "m \<noteq> [] \<and> isWordChar (hd m)"
proof -
  from assms(1) have l: "length m = length w" by (simp add: ciEq_def list_all2_lengthD)
  with assms(2) have ne: "m \<noteq> []" by auto
  from assms(1) have "list_all2 (\<lambda>x c. canon x = canon (of_char c)) m w" by (simp add: ciEq_def)
  from list_all2_nthD [OF this, of 0] ne
  have "canon (m ! 0) = canon (of_char (w ! 0))" by simp
  with ne assms(2) have "canon (hd m) = canon (of_char (hd w))"
    by (simp add: hd_conv_nth)
  with assms(3) ne show ?thesis using canon_word by blast
qed

lemma boundary_after_word:
  "m \<noteq> [] \<Longrightarrow> isWordChar (last m) \<Longrightarrow> atWordBoundary (rev m @ bef, post) \<longleftrightarrow> notBeforeWordChar post"
  by (cases m rule: rev_cases; cases post) (simp_all add: atWordBoundary_def notBeforeWordChar_def)

lemma boundary_before_word:
  "m \<noteq> [] \<Longrightarrow> isWordChar (hd m) \<Longrightarrow> atWordBoundary (rev pre, m @ post) \<longleftrightarrow> notAfterWordChar pre"
  by (cases m; cases "rev pre") (simp_all add: atWordBoundary_def notAfterWordChar_def)

lemma pressEnter_iff: "rx_test pressEnterPattern w \<longleftrightarrow> containsPressEnterPhrase w"
proof
  assume "rx_test pressEnterPattern w"
  then obtain pre m post where w: "w = pre @ m @ post" and s: "spans pressEnterPattern (rev pre) m post"
    unfolding rx_test_spans by blast
  from s obtain w1 s1 w2 s2 w3 s3 w4 where
    m: "m = w1 @ s1 @ w2 @ s2 @ w3 @ s3 @ w4"
    and p: "ciEq w1 ''press''" "whiteSpaceRun s1" "ciEq w2 ''enter'' \<or> ciEq w2 ''return''"
      "whiteSpaceRun s2" "ciEq w3 ''to''" "whiteSpaceRun s3" "ciEq w4 ''continue''"
    and b: "atWordBoundary (rev w4 @ rev s3 @ rev w3 @ rev s2 @ rev w2 @ rev s1 @ rev w1 @ rev pre, post)"
    unfolding pressEnterPattern_def seqs.simps spans_Seq spans_lit spans_Plus_Space spans_Alt spans_WordB
    by (elim exE conjE) (simp del: lit.simps)
  from ciEq_last_word [OF p(7)] have "w4 \<noteq> []" "isWordChar (last w4)" by (simp_all add: isWordChar_def)
  with b have "notBeforeWordChar post"
    using boundary_after_word [of w4 "rev s3 @ rev w3 @ rev s2 @ rev w2 @ rev s1 @ rev w1 @ rev pre" post]
    by simp
  moreover from m p have "isPressEnterPhrase m" unfolding isPressEnterPhrase_def by blast
  ultimately show "containsPressEnterPhrase w" using w unfolding containsPressEnterPhrase_def by blast
next
  assume "containsPressEnterPhrase w"
  then obtain pre m post where w: "w = pre @ m @ post" and ph: "isPressEnterPhrase m"
    and nb: "notBeforeWordChar post"
    unfolding containsPressEnterPhrase_def by blast
  from ph obtain w1 s1 w2 s2 w3 s3 w4 where
    m: "m = w1 @ s1 @ w2 @ s2 @ w3 @ s3 @ w4"
    and p: "ciEq w1 ''press''" "whiteSpaceRun s1" "ciEq w2 ''enter'' \<or> ciEq w2 ''return''"
      "whiteSpaceRun s2" "ciEq w3 ''to''" "whiteSpaceRun s3" "ciEq w4 ''continue''"
    unfolding isPressEnterPhrase_def by blast
  from ciEq_last_word [OF p(7)] have l: "w4 \<noteq> []" "isWordChar (last w4)" by (simp_all add: isWordChar_def)
  have b: "spans WordB (rev w4 @ rev s3 @ rev w3 @ rev s2 @ rev w2 @ rev s1 @ rev w1 @ rev pre) [] post"
    using boundary_after_word [OF l] nb by (simp add: spans_WordB)
  have "spans pressEnterPattern (rev pre) (w1 @ s1 @ w2 @ s2 @ w3 @ s3 @ w4 @ []) post"
    unfolding pressEnterPattern_def seqs.simps
    using p b
    by (intro spans_SeqI) (simp_all add: spans_Plus_Space spans_lit spans_Alt del: lit.simps)
  then have "spans pressEnterPattern (rev pre) m post" using m by simp
  then show "rx_test pressEnterPattern w" unfolding w by (rule rx_test_spansI)
qed

lemma canon_eq_nonletter:
  "\<not> (65 \<le> c \<and> c \<le> 90) \<Longrightarrow> \<not> (97 \<le> c \<and> c \<le> 122) \<Longrightarrow> canon x = canon c \<longleftrightarrow> x = c"
  by (auto simp: canon_def)

lemma spans_verbs: "spans (alts (map lit confirmVerbs)) bef v rest \<longleftrightarrow> isConfirmVerb v"
  by (simp add: spans_alts_lit isConfirmVerb_def)

lemma spans_gap:
  "spans (Upto 120 (Atom (NoneOf [46, 10]))) bef gap rest \<longleftrightarrow>
     length gap \<le> 120 \<and> (\<forall>x \<in> set gap. x \<noteq> 46 \<and> x \<noteq> 10)"
  by (simp add: spans_Upto_Atom canon_eq_nonletter)

lemma spans_anychars:
  "spans (Star (Atom AnyChar)) bef a rest \<longleftrightarrow> (\<forall>x \<in> set a. \<not> isLineTerminator x)"
  by (simp add: spans_Star_Atom)

lemma spans_spaces: "spans (Star (Atom Space)) bef s rest \<longleftrightarrow> (\<forall>x \<in> set s. isWhiteSpace x)"
  by (simp add: spans_Star_Atom)

lemma spans_bracket:
  assumes "\<not> (65 \<le> c \<and> c \<le> 90)" and "\<not> (97 \<le> c \<and> c \<le> 122)"
  shows "spans (Atom (Chr c)) bef m rest \<longleftrightarrow> m = [c]"
  using assms by (auto simp: spans_Atom canon_eq_nonletter)

lemma spans_question:
  "spans (Opt (Atom (OneOf [63, 58]))) bef q rest \<longleftrightarrow> q = [] \<or> q = [63] \<or> q = [58]"
  by (auto simp: spans_Opt spans_Atom canon_eq_nonletter)

lemma spans_group:
  assumes "\<not> (65 \<le> l \<and> l \<le> 90)" "\<not> (97 \<le> l \<and> l \<le> 122)"
    "\<not> (65 \<le> r \<and> r \<le> 90)" "\<not> (97 \<le> r \<and> r \<le> 122)"
  shows "spans (yesNoGroup l r) bef g rest \<longleftrightarrow>
         (\<exists>a yn b. g = [l] @ a @ yn @ b @ [r] \<and> ciEq yn ''y/n''
            \<and> (\<forall>x \<in> set a. \<not> isLineTerminator x) \<and> (\<forall>x \<in> set b. \<not> isLineTerminator x))"
proof
  assume "spans (yesNoGroup l r) bef g rest"
  then show "\<exists>a yn b. g = [l] @ a @ yn @ b @ [r] \<and> ciEq yn ''y/n''
            \<and> (\<forall>x \<in> set a. \<not> isLineTerminator x) \<and> (\<forall>x \<in> set b. \<not> isLineTerminator x)"
    unfolding yesNoGroup_def seqs.simps spans_Seq spans_lit spans_anychars spans_bracket [OF assms(1,2)]
      spans_bracket [OF assms(3,4)]
    by (elim exE conjE) (simp del: lit.simps, blast)
next
  assume "\<exists>a yn b. g = [l] @ a @ yn @ b @ [r] \<and> ciEq yn ''y/n''
            \<and> (\<forall>x \<in> set a. \<not> isLineTerminator x) \<and> (\<forall>x \<in> set b. \<not> isLineTerminator x)"
  then obtain a yn b where g: "g = [l] @ a @ yn @ b @ [r]" and p: "ciEq yn ''y/n''"
    "\<forall>x \<in> set a. \<not> isLineTerminator x" "\<forall>x \<in> set b. \<not> isLineTerminator x"
    by blast
  have "spans (yesNoGroup l r) bef ([l] @ a @ yn @ b @ [r]) rest"
    unfolding yesNoGroup_def seqs.simps using p
    by (intro spans_SeqI)
       (simp_all add: spans_lit spans_anychars spans_bracket [OF assms(1,2)] spans_bracket [OF assms(3,4)]
          del: lit.simps)
  then show "spans (yesNoGroup l r) bef g rest"
    unfolding g .
qed

lemma spans_groups:
  "spans (Alt (yesNoGroup 40 41) (yesNoGroup 91 93)) bef g rest \<longleftrightarrow> isYesNoGroup g"
proof -
  have "isYesNoGroup g \<longleftrightarrow>
      (\<exists>a yn b. g = [40] @ a @ yn @ b @ [41] \<and> ciEq yn ''y/n''
          \<and> (\<forall>x \<in> set a. \<not> isLineTerminator x) \<and> (\<forall>x \<in> set b. \<not> isLineTerminator x))
      \<or> (\<exists>a yn b. g = [91] @ a @ yn @ b @ [93] \<and> ciEq yn ''y/n''
          \<and> (\<forall>x \<in> set a. \<not> isLineTerminator x) \<and> (\<forall>x \<in> set b. \<not> isLineTerminator x))"
    unfolding isYesNoGroup_def by blast
  moreover have "spans (yesNoGroup 40 41) bef g rest \<longleftrightarrow>
      (\<exists>a yn b. g = [40] @ a @ yn @ b @ [41] \<and> ciEq yn ''y/n''
          \<and> (\<forall>x \<in> set a. \<not> isLineTerminator x) \<and> (\<forall>x \<in> set b. \<not> isLineTerminator x))"
    by (rule spans_group) simp_all
  moreover have "spans (yesNoGroup 91 93) bef g rest \<longleftrightarrow>
      (\<exists>a yn b. g = [91] @ a @ yn @ b @ [93] \<and> ciEq yn ''y/n''
          \<and> (\<forall>x \<in> set a. \<not> isLineTerminator x) \<and> (\<forall>x \<in> set b. \<not> isLineTerminator x))"
    by (rule spans_group) simp_all
  ultimately show ?thesis unfolding spans_Alt by blast
qed

lemma confirmBracket_iff: "rx_test confirmBracketPattern w \<longleftrightarrow> confirmBracketCue w"
proof
  assume "rx_test confirmBracketPattern w"
  then obtain pre m post where w: "w = pre @ m @ post"
    and s: "spans confirmBracketPattern (rev pre) m post"
    unfolding rx_test_spans by blast
  from s obtain v gap g where m: "m = v @ gap @ g"
    and p: "isConfirmVerb v" "length gap \<le> 120 \<and> (\<forall>x \<in> set gap. x \<noteq> 46 \<and> x \<noteq> 10)" "isYesNoGroup g"
    unfolding confirmBracketPattern_def seqs.simps spans_Seq
      spans_verbs spans_gap spans_groups
    by blast
  from w m have "w = pre @ v @ gap @ g @ post" by simp
  with p show "confirmBracketCue w" unfolding confirmBracketCue_def by blast
next
  assume "confirmBracketCue w"
  then obtain pre v gap g post where w: "w = pre @ v @ gap @ g @ post"
    and p: "isConfirmVerb v" "length gap \<le> 120 \<and> (\<forall>x \<in> set gap. x \<noteq> 46 \<and> x \<noteq> 10)" "isYesNoGroup g"
    unfolding confirmBracketCue_def by blast
  have "spans confirmBracketPattern (rev pre) (v @ gap @ g) post"
    unfolding confirmBracketPattern_def seqs.simps
    using p by (intro spans_SeqI) (simp_all add: spans_verbs spans_gap spans_groups)
  then have "rx_test confirmBracketPattern (pre @ (v @ gap @ g) @ post)" by (rule rx_test_spansI)
  then show "rx_test confirmBracketPattern w" using w by simp
qed

lemma confirmTail_iff: "rx_test confirmTailPattern w \<longleftrightarrow> confirmTailCue w"
proof
  assume "rx_test confirmTailPattern w"
  then obtain pre m post where w: "w = pre @ m @ post"
    and s: "spans confirmTailPattern (rev pre) m post"
    unfolding rx_test_spans by blast
  from s obtain v s1 q s2 where m: "m = v @ s1 @ q @ s2 @ []" and e: "post = []"
    and p: "isConfirmVerb v" "\<forall>x \<in> set s1. isWhiteSpace x" "q = [] \<or> q = [63] \<or> q = [58]"
      "\<forall>x \<in> set s2. isWhiteSpace x"
    unfolding confirmTailPattern_def seqs.simps spans_Seq
      spans_verbs spans_spaces spans_question spans_Eoi
    by blast
  from w m e have "w = pre @ v @ s1 @ q @ s2" by simp
  with p show "confirmTailCue w" unfolding confirmTailCue_def by blast
next
  assume "confirmTailCue w"
  then obtain pre v s1 q s2 where w: "w = pre @ v @ s1 @ q @ s2"
    and p: "isConfirmVerb v" "\<forall>x \<in> set s1. isWhiteSpace x" "q = [] \<or> q = [63] \<or> q = [58]"
      "\<forall>x \<in> set s2. isWhiteSpace x"
    unfolding confirmTailCue_def by blast
  have "spans confirmTailPattern (rev pre) (v @ s1 @ q @ s2 @ []) []"
    unfolding confirmTailPattern_def seqs.simps
    using p by (intro spans_SeqI) (simp_all add: spans_verbs spans_spaces spans_question spans_Eoi)
  then have "rx_test confirmTailPattern (pre @ (v @ s1 @ q @ s2 @ []) @ [])" by (rule rx_test_spansI)
  then show "rx_test confirmTailPattern w" using w by simp
qed

section \<open>The prompt classifier\<close>

lemma detectionWindow_nonempty: "detectionWindow e rawTail \<noteq> [] \<Longrightarrow> recentLines e rawTail \<noteq> []"
  by (auto simp: detectionWindow_def)

lemma ciEq_length: "ciEq m w \<Longrightarrow> length m = length w"
  by (simp add: ciEq_def list_all2_lengthD)

lemma pressEnterPhrase_nonempty: "isPressEnterPhrase m \<Longrightarrow> m \<noteq> []"
  by (auto simp: isPressEnterPhrase_def dest: ciEq_length)

text \<open>
  C7, as amended. For every detection tail whose window contains the phrase
  \<open>press enter to continue\<close> or \<open>press return to continue\<close> (any letter case, the
  words separated by white space) with no word character right after \<open>continue\<close>,
  \<open>detectInteractivePrompt\<close> returns kind \<open>press-enter\<close> with the empty string as safe
  response and the last line as text; the pattern is checked first, so this holds whatever
  confirm or choice cues the window also contains.
\<close>

theorem press_enter_phrase_wins:
  assumes "containsPressEnterPhrase (detectionWindow e rawTail)"
  shows "detectInteractivePrompt e rawTail =
           Some \<lparr>kind = PressEnter, promptText = last (recentLines e rawTail), safeAutoResponse = Some []\<rparr>"
proof -
  from assms have "detectionWindow e rawTail \<noteq> []"
    by (auto simp: containsPressEnterPhrase_def dest: pressEnterPhrase_nonempty)
  then have ne: "recentLines e rawTail \<noteq> []" by (rule detectionWindow_nonempty)
  from assms have "rx_test pressEnterPattern (joinWith [32] (recentLines e rawTail))"
    by (simp add: pressEnter_iff detectionWindow_def)
  with ne show ?thesis
    by (cases "recentLines e rawTail") (simp_all add: detectInteractivePrompt_def Let_def lastLineOr_def)
qed

theorem press_enter_phrase_wins_witness:
  "detectInteractivePrompt plainEnv (js ''Continue? (y/N)'' @ [10] @ js ''Press ENTER to continue:'')
     = Some \<lparr>kind = PressEnter, promptText = js ''Press ENTER to continue:'', safeAutoResponse = Some []\<rparr>
   \<and> rx_test confirmBracketPattern (js ''Continue? (y/N) Press ENTER to continue:'')
   \<and> rx_test confirmTailPattern (js ''Continue? (y/N) Press ENTER to continue:'')"
proof -
  let ?tail = "js ''Continue? (y/N)'' @ [10] @ js ''Press ENTER to continue:''"
  have r: "recentLines plainEnv ?tail = [js ''Continue? (y/N)'', js ''Press ENTER to continue:'']"
    by (simp add: eval_examples eval_detect isWhiteSpace_def js_def)
  then have w: "detectionWindow plainEnv ?tail = js ''Continue? (y/N) Press ENTER to continue:''"
    by (simp add: detectionWindow_def js_def)
  have "rx_test pressEnterPattern (js ''Continue? (y/N) Press ENTER to continue:'')"
    by (simp add: eval_rx eval_patterns)
  then have c: "containsPressEnterPhrase (detectionWindow plainEnv ?tail)"
    unfolding w by (simp only: pressEnter_iff)
  have b: "rx_test confirmBracketPattern (js ''Continue? (y/N) Press ENTER to continue:'')"
    by (simp add: eval_rx eval_patterns)
  have t: "rx_test confirmTailPattern (js ''Continue? (y/N) Press ENTER to continue:'')"
    by (simp add: eval_rx eval_patterns)
  from press_enter_phrase_wins [OF c] r b t show ?thesis by simp
qed

text \<open>
  A window that holds the phrase with a word character right after it is not classified as
  \<open>press-enter\<close>: \<^verbatim>\<open>Press Enter to continued\<close> is no prompt at all.
\<close>

theorem phrase_before_word_char_is_no_prompt:
  "detectionWindow plainEnv (js ''Press Enter to continued'') = js ''Press Enter to continued''
   \<and> holdsPressEnterPhrase (js ''Press Enter to continued'')
   \<and> detectInteractivePrompt plainEnv (js ''Press Enter to continued'') = None"
proof -
  have w: "detectionWindow plainEnv (js ''Press Enter to continued'') = js ''Press Enter to continued''"
    by (simp add: detectionWindow_def eval_examples eval_detect isWhiteSpace_def js_def)
  have p: "isPressEnterPhrase (js ''Press Enter to continue'')"
  proof -
    have "js ''Press Enter to continue''
        = js ''Press'' @ js '' '' @ js ''Enter'' @ js '' '' @ js ''to'' @ js '' '' @ js ''continue''"
      by (simp add: js_def)
    moreover have "ciEq (js ''Press'') ''press''" "ciEq (js ''Enter'') ''enter''"
      "ciEq (js ''to'') ''to''" "ciEq (js ''continue'') ''continue''" "whiteSpaceRun (js '' '')"
      by (simp_all add: ciEq_def js_def canon_def whiteSpaceRun_def isWhiteSpace_def)
    ultimately show ?thesis unfolding isPressEnterPhrase_def by blast
  qed
  have "js ''Press Enter to continued'' = [] @ js ''Press Enter to continue'' @ js ''d''"
    by (simp add: js_def)
  with p have h: "holdsPressEnterPhrase (js ''Press Enter to continued'')"
    unfolding holdsPressEnterPhrase_def by blast
  have d: "detectInteractivePrompt plainEnv (js ''Press Enter to continued'') = None"
    by (simp add: eval_examples eval_detect eval_rx eval_patterns)
  from w h d show ?thesis by blast
qed

lemma confirmVerb_nonempty: "isConfirmVerb v \<Longrightarrow> v \<noteq> []"
  by (auto simp: isConfirmVerb_def confirmVerbs_def dest: ciEq_length)

lemma no_cue_in_empty_window: "\<not> confirmBracketCue [] \<and> \<not> confirmTailCue []"
  by (auto simp: confirmBracketCue_def confirmTailCue_def dest: confirmVerb_nonempty)

lemma detectionWindow_empty: "recentLines e rawTail = [] \<Longrightarrow> detectionWindow e rawTail = []"
  by (simp add: detectionWindow_def)

text \<open>
  C5, as amended. \<open>detectInteractivePrompt\<close> returns kind \<open>confirm\<close> exactly when the
  window does not contain the press-enter phrase and contains a confirmation verb followed
  either, after at most 120 characters that are neither a period nor a line feed, by a group
  in parentheses or square brackets that holds \<open>y/n\<close>, or by nothing but optional white
  space, an optional question mark or colon and optional white space up to the end of the
  window.
\<close>

theorem confirm_classification:
  "(\<exists>prompt. detectInteractivePrompt e rawTail = Some prompt \<and> kind prompt = Confirm)
   \<longleftrightarrow> \<not> containsPressEnterPhrase (detectionWindow e rawTail)
       \<and> (confirmBracketCue (detectionWindow e rawTail) \<or> confirmTailCue (detectionWindow e rawTail))"
proof (cases "recentLines e rawTail = []")
  case True
  then have "detectInteractivePrompt e rawTail = None"
    by (simp add: detectInteractivePrompt_def)
  with True show ?thesis
    using no_cue_in_empty_window by (simp add: detectionWindow_empty)
next
  case False
  then show ?thesis
    by (simp add: detectInteractivePrompt_def Let_def detectionWindow_def
          pressEnter_iff confirmBracket_iff confirmTail_iff)
qed

text \<open>
  A window that is only a confirmation verb, with no bracket, question mark or colon in
  it, classifies as \<open>confirm\<close>.
\<close>

theorem bare_verb_classifies_as_confirm:
  "detectInteractivePrompt plainEnv (js ''proceed'')
     = Some \<lparr>kind = Confirm, promptText = js ''proceed'', safeAutoResponse = None\<rparr>
   \<and> detectionWindow plainEnv (js ''proceed'') = js ''proceed''
   \<and> \<not> specConfirmCue (js ''proceed'')"
proof -
  have d: "detectInteractivePrompt plainEnv (js ''proceed'')
     = Some \<lparr>kind = Confirm, promptText = js ''proceed'', safeAutoResponse = None\<rparr>"
    by (simp add: eval_examples eval_detect eval_rx eval_patterns)
  have w: "detectionWindow plainEnv (js ''proceed'') = js ''proceed''"
    by (simp add: detectionWindow_def eval_examples eval_detect isWhiteSpace_def js_def)
  have n: "\<not> specConfirmCue (js ''proceed'')"
  proof
    assume "specConfirmCue (js ''proceed'')"
    then obtain pre v rest where s: "js ''proceed'' = pre @ v @ rest"
      and c: "(\<exists>a g b. rest = a @ g @ b \<and> isYesNoGroup g)
           \<or> (rest \<noteq> [] \<and> (last rest = 63 \<or> last rest = 58))"
      unfolding specConfirmCue_def by blast
    from c show False
    proof
      assume "\<exists>a g b. rest = a @ g @ b \<and> isYesNoGroup g"
      then obtain a g b where "rest = a @ g @ b" "isYesNoGroup g" by blast
      then have "40 \<in> set rest \<or> 91 \<in> set rest" by (auto simp: isYesNoGroup_def)
      then have "40 \<in> set (pre @ v @ rest) \<or> 91 \<in> set (pre @ v @ rest)" by auto
      then show False unfolding s [symmetric] by (simp add: js_def)
    next
      assume r: "rest \<noteq> [] \<and> (last rest = 63 \<or> last rest = 58)"
      then have "last (pre @ v @ rest) = last rest" by simp
      with r show False unfolding s [symmetric] by (simp add: js_def)
    qed
  qed
  from d w n show ?thesis by blast
qed

theorem confirm_classification_witness:
  "detectInteractivePrompt plainEnv (js ''Proceed? (y/N)'')
     = Some \<lparr>kind = Confirm, promptText = js ''Proceed? (y/N)'', safeAutoResponse = None\<rparr>
   \<and> \<not> containsPressEnterPhrase (detectionWindow plainEnv (js ''Proceed? (y/N)''))
   \<and> (confirmBracketCue (detectionWindow plainEnv (js ''Proceed? (y/N)''))
      \<or> confirmTailCue (detectionWindow plainEnv (js ''Proceed? (y/N)'')))"
proof -
  have d: "detectInteractivePrompt plainEnv (js ''Proceed? (y/N)'')
     = Some \<lparr>kind = Confirm, promptText = js ''Proceed? (y/N)'', safeAutoResponse = None\<rparr>"
    by (simp add: eval_examples eval_detect eval_rx eval_patterns)
  then have "\<exists>prompt. detectInteractivePrompt plainEnv (js ''Proceed? (y/N)'') = Some prompt
      \<and> kind prompt = Confirm"
    by simp
  with confirm_classification [of plainEnv "js ''Proceed? (y/N)''"] d show ?thesis by blast
qed

section \<open>The auto-answer policy\<close>

text \<open>
  C1. For every risk mode and every prompt match, \<open>resolveAutoResponse\<close> is the decision
  table: \<open>off\<close> defers every prompt; \<open>safe\<close> answers \<open>press-enter\<close> with its canonical
  safe response (the empty string when the match carries none) and defers \<open>confirm\<close> and
  \<open>choice\<close>; \<open>balanced\<close> answers \<open>press-enter\<close> likewise, answers \<open>confirm\<close> with
  \<open>y\<close> unless the prompt text matches the high-risk pattern, when it defers, and defers
  \<open>choice\<close>; \<open>yolo\<close> answers \<open>press-enter\<close> likewise, \<open>confirm\<close> with \<open>y\<close> and
  \<open>choice\<close> with \<open>1\<close>.
\<close>

theorem resolveAutoResponse_decision_table:
  "resolveAutoResponse mode prompt =
     (case mode of
        Off \<Rightarrow> None
      | Safe \<Rightarrow>
          (case kind prompt of
             PressEnter \<Rightarrow> Some (case safeAutoResponse prompt of None \<Rightarrow> [] | Some r \<Rightarrow> r)
           | Confirm \<Rightarrow> None
           | Choice \<Rightarrow> None)
      | Balanced \<Rightarrow>
          (case kind prompt of
             PressEnter \<Rightarrow> Some (case safeAutoResponse prompt of None \<Rightarrow> [] | Some r \<Rightarrow> r)
           | Confirm \<Rightarrow>
               if rx_test HIGH_RISK_CONFIRM_PATTERN (promptText prompt) then None else Some (js ''y'')
           | Choice \<Rightarrow> None)
      | Yolo \<Rightarrow>
          (case kind prompt of
             PressEnter \<Rightarrow> Some (case safeAutoResponse prompt of None \<Rightarrow> [] | Some r \<Rightarrow> r)
           | Confirm \<Rightarrow> Some (js ''y'')
           | Choice \<Rightarrow> Some (js ''1'')))"
  by (cases mode; cases "kind prompt") (simp_all add: resolveAutoResponse_def safeResponseOrEmpty_def)

theorem resolveAutoResponse_decision_table_witness:
  "resolveAutoResponse Balanced
     \<lparr>kind = Confirm, promptText = js ''delete production DB? (y/N)'', safeAutoResponse = None\<rparr> = None
   \<and> resolveAutoResponse Balanced
     \<lparr>kind = Confirm, promptText = js ''Proceed? (y/N)'', safeAutoResponse = None\<rparr> = Some (js ''y'')
   \<and> resolveAutoResponse Safe
     \<lparr>kind = PressEnter, promptText = js ''Press Enter to continue'', safeAutoResponse = Some []\<rparr> = Some []
   \<and> resolveAutoResponse Yolo
     \<lparr>kind = Choice, promptText = js ''Enter choice:'', safeAutoResponse = None\<rparr> = Some (js ''1'')
   \<and> resolveAutoResponse Off
     \<lparr>kind = PressEnter, promptText = js ''Press Enter to continue'', safeAutoResponse = Some []\<rparr> = None"
proof -
  have hi: "rx_test HIGH_RISK_CONFIRM_PATTERN (js ''delete production DB? (y/N)'')"
    by (simp add: eval_rx eval_patterns)
  have lo: "\<not> rx_test HIGH_RISK_CONFIRM_PATTERN (js ''Proceed? (y/N)'')"
    by (simp add: eval_rx eval_patterns)
  show ?thesis
    using hi lo
      resolveAutoResponse_decision_table [of Balanced
        "\<lparr>kind = Confirm, promptText = js ''delete production DB? (y/N)'', safeAutoResponse = None\<rparr>"]
      resolveAutoResponse_decision_table [of Balanced
        "\<lparr>kind = Confirm, promptText = js ''Proceed? (y/N)'', safeAutoResponse = None\<rparr>"]
      resolveAutoResponse_decision_table [of Safe
        "\<lparr>kind = PressEnter, promptText = js ''Press Enter to continue'', safeAutoResponse = Some []\<rparr>"]
      resolveAutoResponse_decision_table [of Yolo
        "\<lparr>kind = Choice, promptText = js ''Enter choice:'', safeAutoResponse = None\<rparr>"]
      resolveAutoResponse_decision_table [of Off
        "\<lparr>kind = PressEnter, promptText = js ''Press Enter to continue'', safeAutoResponse = Some []\<rparr>"]
    by simp
qed

lemma spans_alts: "spans (alts rs) bef m rest \<longleftrightarrow> (\<exists>r \<in> set rs. spans r bef m rest)"
proof (induction rs rule: induct_list012)
  case 1
  then show ?case by (simp add: spans_Atom)
next
  case (2 r)
  then show ?case by simp
next
  case (3 r r' rs)
  then show ?case by (simp add: spans_Alt)
qed

lemma spans_lit_WordB:
  "ciEq m t \<Longrightarrow> atWordBoundary (rev m @ bef, rest) \<Longrightarrow> spans (Seq (lit t) WordB) bef m rest"
  using spans_SeqI [of "lit t" bef m "[]" rest WordB] by (simp add: spans_lit spans_WordB)

text \<open>
  C10. In mode \<open>balanced\<close> a confirm prompt is deferred as well when its text contains
  one of \<open>rm\<close>, \<open>erase\<close>, \<open>reset\<close>, \<open>revert\<close>, \<open>overwrite\<close>, \<open>prod\<close>,
  \<open>db\<close>, \<open>schema\<close>, \<open>migration\<close>, \<open>key\<close> as a whole word in any letter case:
  the high-risk pattern matches such a text.
\<close>

theorem balanced_defers_further_terms:
  assumes "kind prompt = Confirm"
    and "promptText prompt = pre @ m @ post"
    and "t \<in> set [''rm'', ''erase'', ''reset'', ''revert'', ''overwrite'', ''prod'', ''db'',
                     ''schema'', ''migration'', ''key'']"
    and "ciEq m t"
    and "notAfterWordChar pre" and "notBeforeWordChar post"
  shows "rx_test HIGH_RISK_CONFIRM_PATTERN (promptText prompt)
     \<and> resolveAutoResponse Balanced prompt = None"
proof -
  from assms(3) have alt: "lit t \<in> set highRiskAlternatives \<or> Seq (lit t) WordB \<in> set highRiskAlternatives"
    by (auto simp: highRiskAlternatives_def simp del: lit.simps)
  from assms(3) have wc: "t \<noteq> []" "isWordChar (of_char (hd t))" "isWordChar (of_char (last t))"
    by (auto simp: isWordChar_def)
  from ciEq_hd_word [OF assms(4) wc(1,2)] ciEq_last_word [OF assms(4) wc(1,3)]
  have mw: "m \<noteq> []" "isWordChar (hd m)" "isWordChar (last m)" by simp_all
  have b1: "atWordBoundary (rev pre, m @ post)"
    using boundary_before_word [OF mw(1,2)] assms(5) by simp
  have b2: "atWordBoundary (rev m @ rev pre, post)"
    using boundary_after_word [OF mw(1,3)] assms(6) by simp
  from alt have "\<exists>r \<in> set highRiskAlternatives. spans r (rev pre) m (post)"
  proof
    assume "lit t \<in> set highRiskAlternatives"
    moreover have "spans (lit t) (rev pre) m post" using assms(4) by (simp add: spans_lit)
    ultimately show ?thesis by blast
  next
    assume "Seq (lit t) WordB \<in> set highRiskAlternatives"
    moreover have "spans (Seq (lit t) WordB) (rev pre) m post"
      using assms(4) b2 by (rule spans_lit_WordB)
    ultimately show ?thesis by blast
  qed
  then have a: "spans (alts highRiskAlternatives) (rev pre) m ([] @ post)"
    by (simp add: spans_alts)
  have s2: "spans (Seq (alts highRiskAlternatives) WordB) (rev pre) m post"
    using spans_SeqI [of "alts highRiskAlternatives" "rev pre" m "[]" post WordB] a b2
    by (simp add: spans_WordB)
  have "spans (Seq WordB (Seq (alts highRiskAlternatives) WordB)) (rev pre) m post"
    using spans_SeqI [of WordB "rev pre" "[]" m post "Seq (alts highRiskAlternatives) WordB"] s2 b1
    by (simp add: spans_WordB)
  then have "spans HIGH_RISK_CONFIRM_PATTERN (rev pre) m post"
    by (simp add: HIGH_RISK_CONFIRM_PATTERN_def)
  then have "rx_test HIGH_RISK_CONFIRM_PATTERN (promptText prompt)"
    unfolding assms(2) by (rule rx_test_spansI)
  then show ?thesis using assms(1) by (simp add: resolveAutoResponse_def)
qed

theorem balanced_defers_further_terms_witness:
  "resolveAutoResponse Balanced
     \<lparr>kind = Confirm, promptText = js ''Reset the cache? (y/N)'', safeAutoResponse = None\<rparr> = None
   \<and> resolveAutoResponse Balanced
     \<lparr>kind = Confirm, promptText = js ''Rotate the API key? (y/N)'', safeAutoResponse = None\<rparr> = None
   \<and> resolveAutoResponse Balanced
     \<lparr>kind = Confirm, promptText = js ''Apply schema? (y/N)'', safeAutoResponse = None\<rparr> = None"
proof -
  let ?p1 = "\<lparr>kind = Confirm, promptText = js ''Reset the cache? (y/N)'', safeAutoResponse = None\<rparr>"
  let ?p2 = "\<lparr>kind = Confirm, promptText = js ''Rotate the API key? (y/N)'', safeAutoResponse = None\<rparr>"
  let ?p3 = "\<lparr>kind = Confirm, promptText = js ''Apply schema? (y/N)'', safeAutoResponse = None\<rparr>"
  have 1: "resolveAutoResponse Balanced ?p1 = None"
    using balanced_defers_further_terms [of ?p1 "[]" "js ''Reset''" "js '' the cache? (y/N)''" "''reset''"]
    by (simp add: ciEq_def js_def canon_def notAfterWordChar_def notBeforeWordChar_def isWordChar_def)
  have 2: "resolveAutoResponse Balanced ?p2 = None"
    using balanced_defers_further_terms [of ?p2 "js ''Rotate the API ''" "js ''key''" "js ''? (y/N)''" "''key''"]
    by (simp add: ciEq_def js_def canon_def notAfterWordChar_def notBeforeWordChar_def isWordChar_def)
  have 3: "resolveAutoResponse Balanced ?p3 = None"
    using balanced_defers_further_terms [of ?p3 "js ''Apply ''" "js ''schema''" "js ''? (y/N)''" "''schema''"]
    by (simp add: ciEq_def js_def canon_def notAfterWordChar_def notBeforeWordChar_def isWordChar_def)
  from 1 2 3 show ?thesis by blast
qed

section \<open>The session bridge: what each callback changes\<close>

lemmas eval_session =
  run_def initialSession_def onChunk_def bookChunk_def maybeHandlePrompt_def startPromptTask_def
  responderResolved_def responderRejected_def settlePromptTask_def flushSuppressedOutput_def
  writeStdin_def pushPromptEvent_def MAX_TRANSCRIPT_CHARS_def MAX_DETECTION_TAIL_def
  promptSignature_def kindName_def normalizePromptSignature_def ensureTrailingNewline_def
  asError_def noResponderError_def finishSession_def

lemma onChunk_bookChunk:
  "onChunk e inp raw now evNow st =
     (if sanitizeBinaryOutput e raw = [] then st
      else maybeHandlePrompt e inp now evNow (bookChunk e inp (sanitizeBinaryOutput e raw) st))"
  by (simp add: onChunk_def Let_def)

lemma transcript_bookChunk [simp]:
  "transcript (bookChunk e inp chunk st) = sliceLast MAX_TRANSCRIPT_CHARS (transcript st @ chunk)"
  by (simp add: bookChunk_def Let_def)

lemma detectTail_bookChunk [simp]:
  "detectTail (bookChunk e inp chunk st) =
     sliceLast MAX_DETECTION_TAIL (detectTail st @ normalizeForPromptDetection e chunk)"
  by (simp add: bookChunk_def Let_def)

lemmas task_defs =
  startPromptTask_def maybeHandlePrompt_def responderResolved_def responderRejected_def
  settlePromptTask_def flushSuppressedOutput_def writeStdin_def pushPromptEvent_def

lemma transcript_maybeHandlePrompt [simp]:
  "transcript (maybeHandlePrompt e inp now evNow st) = transcript st"
  by (simp add: task_defs Let_def split: option.splits)

lemma detectTail_maybeHandlePrompt:
  "detectTail (maybeHandlePrompt e inp now evNow st) = detectTail st
   \<or> detectTail (maybeHandlePrompt e inp now evNow st) = []"
  by (simp add: task_defs Let_def split: option.splits)

lemma transcript_responderResolved [simp]: "transcript (responderResolved inp r t st) = transcript st"
  by (simp add: task_defs split: task.splits)

lemma transcript_responderRejected [simp]: "transcript (responderRejected inp err st) = transcript st"
  by (simp add: task_defs split: task.splits)

lemma transcript_settlePromptTask [simp]: "transcript (settlePromptTask st) = transcript st"
  by (simp add: task_defs split: task.splits option.splits)

lemma detectTail_responderResolved:
  "detectTail (responderResolved inp r t st) = detectTail st \<or> detectTail (responderResolved inp r t st) = []"
  by (simp add: task_defs split: task.splits)

lemma detectTail_responderRejected [simp]: "detectTail (responderRejected inp err st) = detectTail st"
  by (simp add: task_defs split: task.splits)

lemma detectTail_settlePromptTask [simp]: "detectTail (settlePromptTask st) = detectTail st"
  by (simp add: task_defs split: task.splits option.splits)

lemma length_sliceLast: "length (sliceLast n xs) \<le> n"
  by (simp add: sliceLast_def)

lemma suffix_sliceLast_append: "suffix a b \<Longrightarrow> suffix (sliceLast n (a @ c)) (b @ c)"
proof -
  assume "suffix a b"
  then have "suffix (a @ c) (b @ c)" by simp
  moreover have "suffix (sliceLast n (a @ c)) (a @ c)" unfolding sliceLast_def by (rule suffix_drop)
  ultimately show ?thesis using suffix_order.trans by blast
qed

lemma transcript_onChunk:
  "transcript (onChunk e inp raw now evNow st) =
     (if sanitizeBinaryOutput e raw = [] then transcript st
      else sliceLast MAX_TRANSCRIPT_CHARS (transcript st @ sanitizeBinaryOutput e raw))"
  by (simp add: onChunk_bookChunk)

lemma detectTail_onChunk:
  "detectTail (onChunk e inp raw now evNow st) =
     (if sanitizeBinaryOutput e raw = [] then detectTail st
      else sliceLast MAX_DETECTION_TAIL
             (detectTail st @ normalizeForPromptDetection e (sanitizeBinaryOutput e raw)))
   \<or> detectTail (onChunk e inp raw now evNow st) = []"
proof (cases "sanitizeBinaryOutput e raw = []")
  case True
  then show ?thesis by (simp add: onChunk_bookChunk)
next
  case False
  then show ?thesis
    using detectTail_maybeHandlePrompt [of e inp now evNow "bookChunk e inp (sanitizeBinaryOutput e raw) st"]
    by (auto simp: onChunk_bookChunk)
qed

lemma run_snoc: "run e inp (evs @ [ev]) = step e inp (run e inp evs) ev"
  by (simp add: run_def)

lemma outputReceived_snoc:
  "outputReceived e (evs @ [ev]) =
     outputReceived e evs @ (case ev of Chunk raw now evNow \<Rightarrow> sanitizeBinaryOutput e raw | _ \<Rightarrow> [])"
  by (induction e evs rule: outputReceived.induct) (simp_all split: event.splits)

lemma outputNormalized_snoc:
  "outputNormalized e (evs @ [ev]) =
     outputNormalized e evs @
       (case ev of
          Chunk raw now evNow \<Rightarrow>
            if sanitizeBinaryOutput e raw = [] then []
            else normalizeForPromptDetection e (sanitizeBinaryOutput e raw)
        | _ \<Rightarrow> [])"
  by (induction e evs rule: outputNormalized.induct) (simp_all split: event.splits)

lemma transcript_invariant:
  "length (transcript (run e inp evs)) \<le> MAX_TRANSCRIPT_CHARS
   \<and> suffix (transcript (run e inp evs)) (outputReceived e evs)"
proof (induction evs rule: rev_induct)
  case Nil
  then show ?case by (simp add: run_def initialSession_def)
next
  case (snoc ev evs)
  then show ?case
    by (cases ev)
       (auto simp: run_snoc outputReceived_snoc transcript_onChunk length_sliceLast
             intro: suffix_sliceLast_append)
qed

lemma detectTail_invariant:
  "length (detectTail (run e inp evs)) \<le> MAX_DETECTION_TAIL
   \<and> suffix (detectTail (run e inp evs)) (outputNormalized e evs)"
proof (induction evs rule: rev_induct)
  case Nil
  then show ?case by (simp add: run_def initialSession_def)
next
  case (snoc ev evs)
  show ?case
  proof (cases ev)
    case (Chunk raw now evNow)
    then show ?thesis
      using snoc detectTail_onChunk [of e inp raw now evNow "run e inp evs"]
      by (auto simp: run_snoc outputNormalized_snoc length_sliceLast intro: suffix_sliceLast_append)
  next
    case (ResponderResolved r t)
    then show ?thesis
      using snoc detectTail_responderResolved [of inp r t "run e inp evs"]
      by (auto simp: run_snoc outputNormalized_snoc)
  qed (use snoc in \<open>auto simp: run_snoc outputNormalized_snoc\<close>)
qed

section \<open>Transcript and detection tail\<close>

text \<open>
  C4, as amended. After any sequence of events (so after every processed chunk), the
  transcript has at most \<open>MAX_TRANSCRIPT_CHARS\<close> = 600000 characters and is a suffix of
  the concatenation of all sanitized chunks received; the detection tail has at most
  \<open>MAX_DETECTION_TAIL\<close> = 5000 characters and is a suffix of the concatenation of the
  chunks as normalized for prompt detection (control sequences stripped, carriage returns
  turned into line feeds).
\<close>

theorem bounded_suffix_invariants:
  "length (transcript (run e inp evs)) \<le> MAX_TRANSCRIPT_CHARS
   \<and> MAX_TRANSCRIPT_CHARS = 600000
   \<and> suffix (transcript (run e inp evs)) (outputReceived e evs)
   \<and> length (detectTail (run e inp evs)) \<le> MAX_DETECTION_TAIL
   \<and> MAX_DETECTION_TAIL = 5000
   \<and> suffix (detectTail (run e inp evs)) (outputNormalized e evs)"
  using transcript_invariant [of e inp evs] detectTail_invariant [of e inp evs]
  by (simp add: MAX_TRANSCRIPT_CHARS_def MAX_DETECTION_TAIL_def)

text \<open>
  The detection tail is not a suffix of the output received: after the single chunk
  \<^verbatim>\<open>"a\rb"\<close> (which neither parameter changes here) it holds \<^verbatim>\<open>"a\nb"\<close>.
\<close>

theorem detectTail_not_suffix_of_output:
  "\<not> suffix
      (detectTail
         (run \<lparr>sanitizeBinaryOutput = id, stripAnsi = id, toLowerCase = id\<rparr>
            \<lparr>autoAnswer = Off, logFilePath = [], hasOnOutput = False, hasPromptResponder = False\<rparr>
            [Chunk [97, 13, 98] 0 0]))
      (outputReceived \<lparr>sanitizeBinaryOutput = id, stripAnsi = id, toLowerCase = id\<rparr>
         [Chunk [97, 13, 98] 0 0])"
  by (simp add: eval_session eval_detect suffix_Cons)

theorem bounded_suffix_invariants_witness:
  "length (transcript
      (run \<lparr>sanitizeBinaryOutput = id, stripAnsi = id, toLowerCase = id\<rparr>
         \<lparr>autoAnswer = Off, logFilePath = [], hasOnOutput = False, hasPromptResponder = False\<rparr>
         [Chunk [97, 13, 98] 0 0, Chunk [99] 1 1])) \<le> 600000
   \<and> suffix (transcript
      (run \<lparr>sanitizeBinaryOutput = id, stripAnsi = id, toLowerCase = id\<rparr>
         \<lparr>autoAnswer = Off, logFilePath = [], hasOnOutput = False, hasPromptResponder = False\<rparr>
         [Chunk [97, 13, 98] 0 0, Chunk [99] 1 1])) [97, 13, 98, 99]
   \<and> length (detectTail
      (run \<lparr>sanitizeBinaryOutput = id, stripAnsi = id, toLowerCase = id\<rparr>
         \<lparr>autoAnswer = Off, logFilePath = [], hasOnOutput = False, hasPromptResponder = False\<rparr>
         [Chunk [97, 13, 98] 0 0, Chunk [99] 1 1])) \<le> 5000
   \<and> suffix (detectTail
      (run \<lparr>sanitizeBinaryOutput = id, stripAnsi = id, toLowerCase = id\<rparr>
         \<lparr>autoAnswer = Off, logFilePath = [], hasOnOutput = False, hasPromptResponder = False\<rparr>
         [Chunk [97, 13, 98] 0 0, Chunk [99] 1 1])) [97, 10, 98, 99]"
  using bounded_suffix_invariants
    [of "\<lparr>sanitizeBinaryOutput = id, stripAnsi = id, toLowerCase = id\<rparr>"
        "\<lparr>autoAnswer = Off, logFilePath = [], hasOnOutput = False, hasPromptResponder = False\<rparr>"
        "[Chunk [97, 13, 98] 0 0, Chunk [99] 1 1]"]
  by (simp add: normalizeForPromptDetection_def)

section \<open>Starting and finishing a prompt task\<close>

lemma blocked_noop:
  "promptHandling st \<noteq> Idle \<or> promptError st \<noteq> None \<or> \<not> runStdin st
   \<Longrightarrow> maybeHandlePrompt e inp now evNow st = st"
  by (simp add: maybeHandlePrompt_def)

lemma promptHandling_bookChunk [simp]:
  "promptHandling (bookChunk e inp chunk st) = promptHandling st"
  by (simp add: bookChunk_def Let_def)

lemma promptError_bookChunk [simp]:
  "promptError (bookChunk e inp chunk st) = promptError st"
  by (simp add: bookChunk_def Let_def)

lemma runStdin_bookChunk [simp]:
  "runStdin (bookChunk e inp chunk st) = runStdin st"
  by (simp add: bookChunk_def Let_def)

lemma promptHandling_startPromptTask: "promptHandling (startPromptTask inp prompt evNow st) \<noteq> Idle"
  by (simp add: startPromptTask_def pushPromptEvent_def writeStdin_def split: option.splits)

lemma promptHandling_maybeHandlePrompt:
  "promptHandling st \<noteq> Idle \<Longrightarrow> promptHandling (maybeHandlePrompt e inp now evNow st) = promptHandling st"
  by (simp add: blocked_noop)

lemma step_clears_marker:
  assumes "promptHandling st \<noteq> Idle" and "promptHandling (step e inp st ev) = Idle"
  shows "ev = TaskCallbacks \<and> (\<exists>outcome. promptHandling st = Settling outcome)"
proof (cases ev)
  case (Spawned b)
  with assms show ?thesis by simp
next
  case (Chunk raw now evNow)
  with assms show ?thesis
    by (simp add: onChunk_bookChunk promptHandling_maybeHandlePrompt split: if_splits)
next
  case TaskCallbacks
  with assms show ?thesis by (cases "promptHandling st") (simp_all add: settlePromptTask_def)
next
  case (ResponderResolved r t)
  with assms show ?thesis
    by (cases "promptHandling st") (simp_all add: responderResolved_def)
next
  case (ResponderRejected err)
  with assms show ?thesis
    by (cases "promptHandling st") (simp_all add: responderRejected_def)
next
  case PollTick
  with assms show ?thesis by simp
qed

text \<open>
  C9. At most one prompt task is in flight: while \<open>promptHandling\<close> is set (or a prompt
  error is recorded, or \<open>runStdin\<close> is not yet defined) \<open>maybeHandlePrompt\<close> changes
  nothing, so a chunk that arrives while a task is in flight leaves the task in place; and
  the only event that clears \<open>promptHandling\<close> is the run of the callbacks of a task whose
  body has finished.
\<close>

theorem one_prompt_task_in_flight:
  "((promptHandling st \<noteq> Idle \<or> promptError st \<noteq> None \<or> \<not> runStdin st)
      \<longrightarrow> maybeHandlePrompt e inp now evNow st = st)
   \<and> (promptHandling st \<noteq> Idle \<and> promptHandling (step e inp st ev) = Idle
      \<longrightarrow> ev = TaskCallbacks \<and> (\<exists>outcome. promptHandling st = Settling outcome))
   \<and> (promptHandling st \<noteq> Idle
      \<longrightarrow> promptHandling (step e inp st (Chunk rawChunk now evNow)) = promptHandling st)"
  using blocked_noop [of st e inp now evNow] step_clears_marker [of st e inp ev]
  by (simp add: onChunk_bookChunk promptHandling_maybeHandlePrompt)

section \<open>Repeated detections\<close>




section \<open>Automatic answers\<close>

lemma detect_press_enter_response:
  "detectInteractivePrompt e t = Some prompt \<Longrightarrow> kind prompt = PressEnter
   \<Longrightarrow> safeAutoResponse prompt = Some []"
  by (auto simp: detectInteractivePrompt_def Let_def split: if_splits)

lemma auto_response_newline:
  assumes "detectInteractivePrompt e t = Some prompt"
    and "resolveAutoResponse mode prompt = Some r"
  shows "ensureTrailingNewline r = r @ [10]"
proof -
  have "r = [] \<or> r = js ''y'' \<or> r = js ''1''"
    using assms(2) detect_press_enter_response [OF assms(1)]
    by (auto simp: resolveAutoResponse_def safeResponseOrEmpty_def split: if_splits)
  then show ?thesis by (auto simp: ensureTrailingNewline_def js_def suffix_Cons)
qed

text \<open>
  C8. When the policy returns a response for the detected prompt, the bridge writes the
  response and a line feed to the child's input, then empties the detection tail and
  appends one prompt event with source \<open>auto\<close>, the kind and text of the prompt and the
  policy's response.
\<close>

theorem auto_answer_is_written_and_recorded:
  assumes "promptHandling st = Idle" and "promptError st = None" and "runStdin st"
    and "detectInteractivePrompt e (detectTail st) = Some prompt"
    and "\<not> (promptSignature e prompt = lastPromptSignature st \<and> now - lastPromptAtMs st < 2000)"
    and "resolveAutoResponse (autoAnswer inp) prompt = Some r"
  shows "effects (maybeHandlePrompt e inp now evNow st) =
           effects st @
             [StdinWrite (r @ [10]),
              EventPush \<lparr>eventKind = kind prompt, eventText = promptText prompt, source = Auto,
                         response = r, atMs = evNow\<rparr>]
         \<and> detectTail (maybeHandlePrompt e inp now evNow st) = []
         \<and> promptEvents (maybeHandlePrompt e inp now evNow st) =
             promptEvents st @
               [\<lparr>eventKind = kind prompt, eventText = promptText prompt, source = Auto,
                 response = r, atMs = evNow\<rparr>]"
  using assms auto_response_newline [OF assms(4) assms(6)]
  by (auto simp: maybeHandlePrompt_def startPromptTask_def pushPromptEvent_def writeStdin_def Let_def)

theorem auto_answer_is_written_and_recorded_witness:
  "detectInteractivePrompt \<lparr>sanitizeBinaryOutput = id, stripAnsi = id, toLowerCase = id\<rparr>
      (js ''Continue? (y/N) '')
     = Some \<lparr>kind = Confirm, promptText = js ''Continue? (y/N)'', safeAutoResponse = None\<rparr>
   \<and> resolveAutoResponse Yolo
        \<lparr>kind = Confirm, promptText = js ''Continue? (y/N)'', safeAutoResponse = None\<rparr> = Some (js ''y'')
   \<and> effects (maybeHandlePrompt \<lparr>sanitizeBinaryOutput = id, stripAnsi = id, toLowerCase = id\<rparr>
        \<lparr>autoAnswer = Yolo, logFilePath = [], hasOnOutput = False, hasPromptResponder = False\<rparr> 5 7
        (initialSession\<lparr>runStdin := True, detectTail := js ''Continue? (y/N) ''\<rparr>))
     = [StdinWrite [121, 10],
        EventPush \<lparr>eventKind = Confirm, eventText = js ''Continue? (y/N)'', source = Auto,
                   response = [121], atMs = 7\<rparr>]
   \<and> detectTail (maybeHandlePrompt \<lparr>sanitizeBinaryOutput = id, stripAnsi = id, toLowerCase = id\<rparr>
        \<lparr>autoAnswer = Yolo, logFilePath = [], hasOnOutput = False, hasPromptResponder = False\<rparr> 5 7
        (initialSession\<lparr>runStdin := True, detectTail := js ''Continue? (y/N) ''\<rparr>)) = []"
proof -
  let ?e = "\<lparr>sanitizeBinaryOutput = id, stripAnsi = id, toLowerCase = id\<rparr>"
  let ?inp = "\<lparr>autoAnswer = Yolo, logFilePath = [], hasOnOutput = False, hasPromptResponder = False\<rparr>"
  let ?st = "initialSession\<lparr>runStdin := True, detectTail := js ''Continue? (y/N) ''\<rparr>"
  let ?p = "\<lparr>kind = Confirm, promptText = js ''Continue? (y/N)'', safeAutoResponse = None\<rparr>"
  have d: "detectInteractivePrompt ?e (detectTail ?st) = Some ?p"
    by (simp add: eval_rx eval_patterns eval_detect)
  have r: "resolveAutoResponse (autoAnswer ?inp) ?p = Some (js ''y'')"
    by (simp add: resolveAutoResponse_def)
  have s: "\<not> (promptSignature ?e ?p = lastPromptSignature ?st \<and> 5 - lastPromptAtMs ?st < 2000)"
    by (simp add: promptSignature_def initialSession_def)
  have i: "promptHandling ?st = Idle" "promptError ?st = None" "runStdin ?st"
    by (simp_all add: initialSession_def)
  from auto_answer_is_written_and_recorded [OF i d s r, of 7] d r
  show ?thesis by (simp add: initialSession_def js_def)
qed

section \<open>Manual answers and suppressed output\<close>

lemma onChunk_while_suppressed:
  assumes "promptHandling st = AwaitingResponder prompt" and "suppressUserOutput st"
  shows "promptHandling (onChunk e inp raw now evNow st) = AwaitingResponder prompt
     \<and> suppressUserOutput (onChunk e inp raw now evNow st)
     \<and> suppressedOutput (onChunk e inp raw now evNow st) = suppressedOutput st @ sanitizeBinaryOutput e raw
     \<and> effects (onChunk e inp raw now evNow st) =
         effects st @ (if sanitizeBinaryOutput e raw = [] then [] else [LogWrite (sanitizeBinaryOutput e raw)])
     \<and> promptEvents (onChunk e inp raw now evNow st) = promptEvents st
     \<and> runStdin (onChunk e inp raw now evNow st) = runStdin st"
  using assms by (simp add: onChunk_bookChunk blocked_noop bookChunk_def Let_def)

lemma chunks_while_suppressed:
  assumes "promptHandling st = AwaitingResponder prompt" and "suppressUserOutput st"
  shows "promptHandling (foldl (step e inp) st (chunkEvents cs)) = AwaitingResponder prompt
     \<and> suppressUserOutput (foldl (step e inp) st (chunkEvents cs))
     \<and> suppressedOutput (foldl (step e inp) st (chunkEvents cs)) =
         suppressedOutput st @ concat (sanitizedChunks e cs)
     \<and> effects (foldl (step e inp) st (chunkEvents cs)) = effects st @ map LogWrite (sanitizedChunks e cs)
     \<and> promptEvents (foldl (step e inp) st (chunkEvents cs)) = promptEvents st
     \<and> runStdin (foldl (step e inp) st (chunkEvents cs)) = runStdin st"
  using assms
proof (induction cs arbitrary: st)
  case Nil
  then show ?case by (simp add: chunkEvents_def sanitizedChunks_def)
next
  case (Cons c cs)
  obtain raw now evNow where c: "c = (raw, now, evNow)" by (cases c) auto
  let ?st' = "onChunk e inp raw now evNow st"
  note h = onChunk_while_suppressed [OF Cons.prems, of e inp raw now evNow]
  from h have p: "promptHandling ?st' = AwaitingResponder prompt" "suppressUserOutput ?st'" by simp_all
  have f: "foldl (step e inp) st (chunkEvents (c # cs)) = foldl (step e inp) ?st' (chunkEvents cs)"
    by (simp add: c chunkEvents_def)
  show ?case
    unfolding f using Cons.IH [OF p] h
    by (simp add: c sanitizedChunks_def)
qed

text \<open>
  C6. While the responder is awaited, the chunks that arrive are logged and buffered, not
  passed to the observer. When the responder answers, the answer is written, the event
  with source \<open>manual\<close> is appended, and then suppression ends and the buffer goes to
  the observer in one call, the chunks concatenated in arrival order; when the responder
  fails, suppression ends and the buffer is flushed the same way. Either way the buffer is
  empty afterwards, and an empty buffer is not passed on.
\<close>

theorem manual_resolution_flushes_once_in_order:
  assumes "promptHandling st = AwaitingResponder prompt"
    and "suppressUserOutput st" and "suppressedOutput st = []"
    and "runStdin st" and "hasOnOutput inp"
    and "held = foldl (step e inp) st (chunkEvents cs)"
    and "buffered = concat (sanitizedChunks e cs)"
    and "ev = \<lparr>eventKind = kind prompt, eventText = promptText prompt, source = Manual,
               response = r, atMs = t\<rparr>"
  shows "suppressedOutput held = buffered
     \<and> effects held = effects st @ map LogWrite (sanitizedChunks e cs)
     \<and> \<not> suppressUserOutput (responderResolved inp r t held)
     \<and> suppressedOutput (responderResolved inp r t held) = []
     \<and> promptEvents (responderResolved inp r t held) = promptEvents st @ [ev]
     \<and> effects (responderResolved inp r t held) =
         effects held @ [StdinWrite (ensureTrailingNewline r), EventPush ev]
           @ (if buffered = [] then [] else [Output buffered])
     \<and> \<not> suppressUserOutput (responderRejected inp err held)
     \<and> suppressedOutput (responderRejected inp err held) = []
     \<and> effects (responderRejected inp err held) =
         effects held @ (if buffered = [] then [] else [Output buffered])"
proof -
  note h = chunks_while_suppressed [OF assms(1,2), of e inp cs, folded assms(6)]
  from h assms show ?thesis
    by (simp add: responderResolved_def responderRejected_def flushSuppressedOutput_def
          pushPromptEvent_def writeStdin_def)
qed

section \<open>Fatal prompt errors\<close>

lemma cancelRun_maybeHandlePrompt [simp]:
  "cancelRun (maybeHandlePrompt e inp now evNow st) = cancelRun st"
  by (simp add: task_defs Let_def split: option.splits)

lemma runStdin_maybeHandlePrompt [simp]:
  "runStdin (maybeHandlePrompt e inp now evNow st) = runStdin st"
  by (simp add: task_defs Let_def split: option.splits)

lemma cancelRun_bookChunk [simp]: "cancelRun (bookChunk e inp chunk st) = cancelRun st"
  by (simp add: bookChunk_def Let_def)

lemma started_needs_stdin:
  "promptHandling (maybeHandlePrompt e inp now evNow st) \<noteq> Idle
   \<Longrightarrow> promptHandling st \<noteq> Idle \<or> runStdin st"
  by (cases "runStdin st") (simp_all add: blocked_noop)

lemma cancelRun_step:
  assumes "runStdin st \<longrightarrow> cancelRun st" and "promptHandling st \<noteq> Idle \<longrightarrow> cancelRun st"
  shows "(runStdin (step e inp st ev) \<longrightarrow> cancelRun (step e inp st ev))
     \<and> (promptHandling (step e inp st ev) \<noteq> Idle \<longrightarrow> cancelRun (step e inp st ev))"
proof (cases ev)
  case (Chunk raw now evNow)
  show ?thesis
  proof (cases "sanitizeBinaryOutput e raw = []")
    case True
    with Chunk assms show ?thesis by (simp add: onChunk_bookChunk)
  next
    case False
    with Chunk assms
      started_needs_stdin [of e inp now evNow "bookChunk e inp (sanitizeBinaryOutput e raw) st"]
    show ?thesis by (auto simp: onChunk_bookChunk)
  qed
next
  case TaskCallbacks
  with assms show ?thesis by (auto simp: settlePromptTask_def split: task.splits option.splits)
next
  case (ResponderResolved r t)
  with assms show ?thesis by (auto simp: task_defs split: task.splits)
next
  case (ResponderRejected err)
  with assms show ?thesis by (auto simp: task_defs split: task.splits)
qed (use assms in auto)

lemma cancelRun_invariant:
  "(runStdin (run e inp evs) \<longrightarrow> cancelRun (run e inp evs))
   \<and> (promptHandling (run e inp evs) \<noteq> Idle \<longrightarrow> cancelRun (run e inp evs))"
proof (induction evs rule: rev_induct)
  case Nil
  then show ?case by (simp add: run_def initialSession_def)
next
  case (snoc ev evs)
  then show ?case unfolding run_snoc using cancelRun_step by blast
qed

lemma error_is_final_step:
  assumes "promptError st = Some err" and "promptHandling st = Idle"
  shows "promptError (step e inp st ev) = Some err \<and> promptHandling (step e inp st ev) = Idle"
proof (cases ev)
  case (Chunk raw now evNow)
  with assms show ?thesis by (simp add: onChunk_bookChunk blocked_noop)
qed (use assms in \<open>simp_all add: settlePromptTask_def responderResolved_def responderRejected_def\<close>)

lemma error_is_final:
  assumes "promptError st = Some err" and "promptHandling st = Idle"
  shows "promptError (foldl (step e inp) st evs) = Some err
     \<and> promptHandling (foldl (step e inp) st evs) = Idle"
  using assms
proof (induction evs arbitrary: st)
  case Nil
  then show ?case by simp
next
  case (Cons ev evs)
  from error_is_final_step [OF Cons.prems, of e inp ev] Cons.IH show ?case by simp
qed

lemma finishSession_error:
  "promptError st = Some err \<Longrightarrow> promptHandling st = Idle \<Longrightarrow> finishSession inp ex st = Some (Inl err)"
  by (simp add: finishSession_def settlePromptTask_def)

lemma finishSession_rejected:
  "promptHandling st = Settling (Some err) \<Longrightarrow> finishSession inp ex st = Some (Inl (asError err))"
  by (simp add: finishSession_def settlePromptTask_def)

lemma asError_noResponderError: "asError (noResponderError prompt) = noResponderError prompt"
  by (simp add: asError_def noResponderError_def)

lemma no_responder_outcome:
  assumes "promptHandling st = Idle" and "promptError st = None" and "runStdin st"
    and "detectInteractivePrompt e (detectTail st) = Some prompt"
    and "\<not> (promptSignature e prompt = lastPromptSignature st \<and> now - lastPromptAtMs st < 2000)"
    and "resolveAutoResponse (autoAnswer inp) prompt = None" and "\<not> hasPromptResponder inp"
  shows "promptHandling (maybeHandlePrompt e inp now evNow st) = Settling (Some (noResponderError prompt))
     \<and> effects (maybeHandlePrompt e inp now evNow st) = effects st
     \<and> cancelRun (maybeHandlePrompt e inp now evNow st) = cancelRun st"
  using assms by (simp add: maybeHandlePrompt_def startPromptTask_def Let_def)

lemma settle_rejected:
  assumes "promptHandling st = Settling (Some err)" and "cancelRun st"
  shows "promptError (settlePromptTask st) = Some (asError err)
     \<and> promptHandling (settlePromptTask st) = Idle
     \<and> effects (settlePromptTask st) = effects st @ [CancelRun]"
  using assms by (simp add: settlePromptTask_def)

lemma responderRejected_outcome:
  assumes "promptHandling st = AwaitingResponder prompt"
  shows "promptHandling (responderRejected inp err st) = Settling (Some err)
     \<and> cancelRun (responderRejected inp err st) = cancelRun st"
  using assms by (simp add: responderRejected_def flushSuppressedOutput_def)

text \<open>
  C3. When the policy defers a prompt and no responder is configured, or the responder
  throws or rejects, the error is recorded as the prompt error and the run is asked to
  cancel; \<open>runPtyCodexSession\<close> then rejects with that error (a thrown value that is
  not an \<^verbatim>\<open>Error\<close> wrapped into one) and returns no result, whatever the exit of
  the process and whatever else happens before the process exits.
\<close>

theorem fatal_prompt_error_rejects_session:
  fixes ex :: 'x
  assumes "reached = run e inp evs"
  shows "(st = bookChunk e inp chunk reached
          \<and> promptHandling st = Idle \<and> promptError st = None \<and> runStdin st
          \<and> detectInteractivePrompt e (detectTail st) = Some prompt
          \<and> \<not> (promptSignature e prompt = lastPromptSignature st \<and> now - lastPromptAtMs st < 2000)
          \<and> resolveAutoResponse (autoAnswer inp) prompt = None \<and> \<not> hasPromptResponder inp
          \<longrightarrow> finishSession inp ex (maybeHandlePrompt e inp now evNow st)
                = Some (Inl (noResponderError prompt))
            \<and> promptError (settlePromptTask (maybeHandlePrompt e inp now evNow st))
                = Some (noResponderError prompt)
            \<and> effects (settlePromptTask (maybeHandlePrompt e inp now evNow st))
                = effects st @ [CancelRun]
            \<and> (\<forall>later. finishSession inp ex
                  (foldl (step e inp) (settlePromptTask (maybeHandlePrompt e inp now evNow st)) later)
                = Some (Inl (noResponderError prompt))))
     \<and> (promptHandling reached = AwaitingResponder prompt
          \<longrightarrow> finishSession inp ex (responderRejected inp err reached) = Some (Inl (asError err))
            \<and> promptError (settlePromptTask (responderRejected inp err reached)) = Some (asError err)
            \<and> effects (settlePromptTask (responderRejected inp err reached))
                = effects (responderRejected inp err reached) @ [CancelRun]
            \<and> (\<forall>later. finishSession inp ex
                  (foldl (step e inp) (settlePromptTask (responderRejected inp err reached)) later)
                = Some (Inl (asError err))))"
proof (intro conjI impI)
  assume h: "st = bookChunk e inp chunk reached
          \<and> promptHandling st = Idle \<and> promptError st = None \<and> runStdin st
          \<and> detectInteractivePrompt e (detectTail st) = Some prompt
          \<and> \<not> (promptSignature e prompt = lastPromptSignature st \<and> now - lastPromptAtMs st < 2000)
          \<and> resolveAutoResponse (autoAnswer inp) prompt = None \<and> \<not> hasPromptResponder inp"
  let ?st1 = "maybeHandlePrompt e inp now evNow st"
  let ?failure = "noResponderError prompt"
  from h have "runStdin (bookChunk e inp chunk reached)" by blast
  then have "runStdin (run e inp evs)" using assms by simp
  then have "cancelRun (run e inp evs)" using cancelRun_invariant [of e inp evs] by blast
  then have "cancelRun (bookChunk e inp chunk reached)" using assms by simp
  with h have c: "cancelRun st" by blast
  from h have g: "promptHandling st = Idle" "promptError st = None" "runStdin st"
    "detectInteractivePrompt e (detectTail st) = Some prompt"
    "\<not> (promptSignature e prompt = lastPromptSignature st \<and> now - lastPromptAtMs st < 2000)"
    "resolveAutoResponse (autoAnswer inp) prompt = None" "\<not> hasPromptResponder inp"
    by blast+
  from no_responder_outcome [OF g, of evNow]
  have o: "promptHandling ?st1 = Settling (Some (noResponderError prompt))"
    "effects ?st1 = effects st" "cancelRun ?st1 = cancelRun st"
    by blast+
  from o c have s: "promptError (settlePromptTask ?st1) = Some (noResponderError prompt)"
    "promptHandling (settlePromptTask ?st1) = Idle"
    "effects (settlePromptTask ?st1) = effects st @ [CancelRun]"
    using settle_rejected [of ?st1 "noResponderError prompt"] by (simp_all add: asError_noResponderError)
  show "finishSession inp ex ?st1 = Some (Inl (noResponderError prompt))"
    using finishSession_rejected [OF o(1)] by (simp add: asError_noResponderError)
  show "promptError (settlePromptTask ?st1) = Some (noResponderError prompt)" by (rule s(1))
  show "effects (settlePromptTask ?st1) = effects st @ [CancelRun]" by (rule s(3))
  show "\<forall>later. finishSession inp ex (foldl (step e inp) (settlePromptTask ?st1) later)
      = Some (Inl (noResponderError prompt))"
  proof
    fix later
    from error_is_final [OF s(1,2), of e inp later]
    show "finishSession inp ex (foldl (step e inp) (settlePromptTask ?st1) later) = Some (Inl ?failure)"
      by (intro finishSession_error) simp_all
  qed
next
  assume h: "promptHandling reached = AwaitingResponder prompt"
  let ?st1 = "responderRejected inp err reached"
  let ?failure = "asError err"
  from h assms cancelRun_invariant [of e inp evs] have c: "cancelRun reached" by simp
  from responderRejected_outcome [OF h] have o: "promptHandling ?st1 = Settling (Some err)"
    "cancelRun ?st1 = cancelRun reached" by simp_all
  from o c have s: "promptError (settlePromptTask ?st1) = Some (asError err)"
    "promptHandling (settlePromptTask ?st1) = Idle"
    "effects (settlePromptTask ?st1) = effects ?st1 @ [CancelRun]"
    using settle_rejected [of ?st1 err] by simp_all
  show "finishSession inp ex ?st1 = Some (Inl (asError err))"
    by (rule finishSession_rejected [OF o(1)])
  show "promptError (settlePromptTask ?st1) = Some (asError err)" by (rule s(1))
  show "effects (settlePromptTask ?st1) = effects ?st1 @ [CancelRun]" by (rule s(3))
  show "\<forall>later. finishSession inp ex (foldl (step e inp) (settlePromptTask ?st1) later)
      = Some (Inl (asError err))"
  proof
    fix later
    from error_is_final [OF s(1,2), of e inp later]
    show "finishSession inp ex (foldl (step e inp) (settlePromptTask ?st1) later) = Some (Inl ?failure)"
      by (intro finishSession_error) simp_all
  qed
qed

section \<open>The theorems at concrete sessions\<close>

lemma length_js: "length (js s) = length s"
  by (simp add: js_def)

lemma sliceLast_short: "length xs \<le> n \<Longrightarrow> sliceLast n xs = xs"
  by (simp add: sliceLast_def)

lemma detect_proceed: "detectInteractivePrompt plainEnv (js ''Proceed? (y/N) '') = Some proceedPrompt"
  by (simp add: eval_examples eval_detect eval_rx eval_patterns)

lemma signature_proceed: "promptSignature plainEnv proceedPrompt = js ''confirm:proceed? (y/n)''"
  by (simp add: eval_examples promptSignature_def kindName_def normalizePromptSignature_def
        trim_def isWhiteSpace_def js_def)

lemma normalize_proceed:
  "normalizeForPromptDetection plainEnv (js ''Proceed? (y/N) '') = js ''Proceed? (y/N) ''"
  by (simp add: plainEnv_def normalizeForPromptDetection_def js_def)

lemma sanitize_plain: "sanitizeBinaryOutput plainEnv s = s"
  by (simp add: plainEnv_def)

lemma js_nonempty: "js (c # cs) \<noteq> []"
  by (simp add: js_def)

lemmas eval_run =
  run_def initialSession_def onChunk_def bookChunk_def maybeHandlePrompt_def startPromptTask_def
  responderResolved_def responderRejected_def settlePromptTask_def flushSuppressedOutput_def
  writeStdin_def pushPromptEvent_def Let_def sanitize_plain normalize_proceed detect_proceed
  signature_proceed sliceLast_short length_js MAX_TRANSCRIPT_CHARS_def MAX_DETECTION_TAIL_def
  js_nonempty

lemma run_yolo:
  "run plainEnv yoloInput [Spawned True, Chunk (js ''Proceed? (y/N) '') 5 7] =
     \<lparr>transcript = js ''Proceed? (y/N) '', detectTail = [], pollSamples = 0, suppressedOutput = [],
      suppressUserOutput = False, promptHandling = Settling None, promptError = None,
      cancelRun = True, runStdin = True,
      lastPromptSignature = js ''confirm:proceed? (y/n)'', lastPromptAtMs = 5,
      promptEvents = [\<lparr>eventKind = Confirm, eventText = js ''Proceed? (y/N)'', source = Auto,
                       response = js ''y'', atMs = 7\<rparr>],
      effects = [LogWrite (js ''Proceed? (y/N) ''), Output (js ''Proceed? (y/N) ''),
                 StdinWrite (js ''y'' @ [10]),
                 EventPush \<lparr>eventKind = Confirm, eventText = js ''Proceed? (y/N)'', source = Auto,
                            response = js ''y'', atMs = 7\<rparr>]\<rparr>"
proof -
  have r: "resolveAutoResponse Yolo proceedPrompt = Some (js ''y'')"
    by (simp add: resolveAutoResponse_def proceedPrompt_def)
  have n: "ensureTrailingNewline (js ''y'') = js ''y'' @ [10]"
    by (simp add: ensureTrailingNewline_def js_def suffix_Cons)
  have s: "js ''confirm:proceed? (y/n)'' \<noteq> []" by (rule js_nonempty)
  show ?thesis
    by (simp add: eval_run yoloInput_def r n s) (simp add: proceedPrompt_def)
qed

lemma run_manual:
  "run plainEnv manualInput [Spawned True, Chunk (js ''Proceed? (y/N) '') 5 7] =
     \<lparr>transcript = js ''Proceed? (y/N) '', detectTail = js ''Proceed? (y/N) '', pollSamples = 0,
      suppressedOutput = [], suppressUserOutput = True,
      promptHandling = AwaitingResponder proceedPrompt, promptError = None,
      cancelRun = True, runStdin = True,
      lastPromptSignature = js ''confirm:proceed? (y/n)'', lastPromptAtMs = 5,
      promptEvents = [],
      effects = [LogWrite (js ''Proceed? (y/N) ''), Output (js ''Proceed? (y/N) ''),
                 ResponderCall proceedPrompt]\<rparr>"
proof -
  have r: "resolveAutoResponse Off proceedPrompt = None"
    by (simp add: resolveAutoResponse_def)
  have s: "js ''confirm:proceed? (y/n)'' \<noteq> []" by (rule js_nonempty)
  show ?thesis
    by (simp add: eval_run manualInput_def r s)
qed

theorem one_prompt_task_in_flight_witness:
  "promptHandling (run plainEnv yoloInput [Spawned True, Chunk (js ''Proceed? (y/N) '') 5 7]) = Settling None
   \<and> maybeHandlePrompt plainEnv yoloInput 8 9
        (run plainEnv yoloInput [Spawned True, Chunk (js ''Proceed? (y/N) '') 5 7])
       = run plainEnv yoloInput [Spawned True, Chunk (js ''Proceed? (y/N) '') 5 7]
   \<and> promptHandling
        (step plainEnv yoloInput (run plainEnv yoloInput [Spawned True, Chunk (js ''Proceed? (y/N) '') 5 7])
           (Chunk (js ''Proceed? (y/N) '') 8 9)) = Settling None
   \<and> promptHandling
        (step plainEnv yoloInput (run plainEnv yoloInput [Spawned True, Chunk (js ''Proceed? (y/N) '') 5 7])
           TaskCallbacks) = Idle"
proof -
  let ?st = "run plainEnv yoloInput [Spawned True, Chunk (js ''Proceed? (y/N) '') 5 7]"
  have p: "promptHandling ?st = Settling None" by (simp add: run_yolo)
  have c: "promptHandling (step plainEnv yoloInput ?st TaskCallbacks) = Idle"
    by (simp add: run_yolo settlePromptTask_def)
  from one_prompt_task_in_flight [of ?st plainEnv yoloInput 8 9 TaskCallbacks "js ''Proceed? (y/N) ''"] p c
  show ?thesis by simp
qed







theorem manual_resolution_flushes_once_in_order_witness:
  "effects
     (responderResolved manualInput (js ''y'') 12
        (foldl (step plainEnv manualInput)
           (run plainEnv manualInput [Spawned True, Chunk (js ''Proceed? (y/N) '') 5 7])
           (chunkEvents [(js ''wor'', 8, 9), (js ''king'', 10, 11)])))
   = [LogWrite (js ''Proceed? (y/N) ''), Output (js ''Proceed? (y/N) ''), ResponderCall proceedPrompt,
      LogWrite (js ''wor''), LogWrite (js ''king''),
      StdinWrite (js ''y'' @ [10]),
      EventPush \<lparr>eventKind = Confirm, eventText = js ''Proceed? (y/N)'', source = Manual,
                 response = js ''y'', atMs = 12\<rparr>,
      Output (js ''working'')]
   \<and> suppressedOutput
     (responderResolved manualInput (js ''y'') 12
        (foldl (step plainEnv manualInput)
           (run plainEnv manualInput [Spawned True, Chunk (js ''Proceed? (y/N) '') 5 7])
           (chunkEvents [(js ''wor'', 8, 9), (js ''king'', 10, 11)]))) = []
   \<and> effects
     (responderRejected manualInput (IsError (js ''no answer''))
        (foldl (step plainEnv manualInput)
           (run plainEnv manualInput [Spawned True, Chunk (js ''Proceed? (y/N) '') 5 7])
           (chunkEvents [(js ''wor'', 8, 9), (js ''king'', 10, 11)])))
   = [LogWrite (js ''Proceed? (y/N) ''), Output (js ''Proceed? (y/N) ''), ResponderCall proceedPrompt,
      LogWrite (js ''wor''), LogWrite (js ''king''), Output (js ''working'')]"
proof -
  let ?st = "run plainEnv manualInput [Spawned True, Chunk (js ''Proceed? (y/N) '') 5 7]"
  let ?cs = "[(js ''wor'', 8, 9), (js ''king'', 10, 11)] :: (jsstring \<times> int \<times> int) list"
  have h: "promptHandling ?st = AwaitingResponder proceedPrompt" "suppressUserOutput ?st"
    "suppressedOutput ?st = []" "runStdin ?st" "hasOnOutput manualInput"
    by (simp_all add: run_manual) (simp add: manualInput_def)
  have b: "sanitizedChunks plainEnv ?cs = [js ''wor'', js ''king'']"
    by (simp add: sanitizedChunks_def sanitize_plain js_def)
  have j: "js ''wor'' @ js ''king'' = js ''working''"
    by (simp add: js_def)
  have n: "ensureTrailingNewline (js ''y'') = js ''y'' @ [10]"
    by (simp add: ensureTrailingNewline_def js_def suffix_Cons)
  have w: "js ''working'' \<noteq> []" by (rule js_nonempty)
  have e: "effects ?st = [LogWrite (js ''Proceed? (y/N) ''), Output (js ''Proceed? (y/N) ''),
      ResponderCall proceedPrompt]"
    by (simp add: run_manual)
  have k: "kind proceedPrompt = Confirm" "promptText proceedPrompt = js ''Proceed? (y/N)''"
    by (simp_all add: proceedPrompt_def)
  from manual_resolution_flushes_once_in_order
    [OF h refl refl refl, of plainEnv ?cs "js ''y''" 12 "IsError (js ''no answer'')"]
  show ?thesis
    by (simp add: b n w e k j js_nonempty)
qed

theorem fatal_prompt_error_rejects_session_witness:
  "finishSession unattendedInput (js ''exit'', 0 :: int)
     (maybeHandlePrompt plainEnv unattendedInput 5 7
        (bookChunk plainEnv unattendedInput (js ''Proceed? (y/N) '')
           (run plainEnv unattendedInput [Spawned True])))
     = Some (Inl (noResponderError proceedPrompt))
   \<and> effects (settlePromptTask
       (maybeHandlePrompt plainEnv unattendedInput 5 7
          (bookChunk plainEnv unattendedInput (js ''Proceed? (y/N) '')
             (run plainEnv unattendedInput [Spawned True]))))
     = [LogWrite (js ''Proceed? (y/N) ''), Output (js ''Proceed? (y/N) ''), CancelRun]
   \<and> finishSession manualInput (js ''exit'', 0 :: int)
     (responderRejected manualInput (NotError (js ''declined''))
        (run plainEnv manualInput [Spawned True, Chunk (js ''Proceed? (y/N) '') 5 7]))
     = Some (Inl (IsError (js ''declined'')))
   \<and> finishSession manualInput (js ''exit'', 0 :: int)
     (foldl (step plainEnv manualInput)
        (settlePromptTask
           (responderRejected manualInput (NotError (js ''declined''))
              (run plainEnv manualInput [Spawned True, Chunk (js ''Proceed? (y/N) '') 5 7])))
        [Chunk (js ''done'') 20 21, PollTick])
     = Some (Inl (IsError (js ''declined'')))"
proof -
  let ?c = "js ''Proceed? (y/N) ''"
  let ?r0 = "run plainEnv unattendedInput [Spawned True]"
  let ?st = "bookChunk plainEnv unattendedInput ?c ?r0"
  let ?r1 = "run plainEnv manualInput [Spawned True, Chunk ?c 5 7]"
  have st: "?st = initialSession\<lparr>runStdin := True, cancelRun := True,
      effects := [LogWrite ?c, Output ?c], transcript := ?c, detectTail := ?c\<rparr>"
    by (simp add: eval_run unattendedInput_def)
  have g: "promptHandling ?st = Idle" "promptError ?st = None" "runStdin ?st"
    "detectInteractivePrompt plainEnv (detectTail ?st) = Some proceedPrompt"
    "\<not> (promptSignature plainEnv proceedPrompt = lastPromptSignature ?st \<and> 5 - lastPromptAtMs ?st < 2000)"
    "resolveAutoResponse (autoAnswer unattendedInput) proceedPrompt = None"
    "\<not> hasPromptResponder unattendedInput"
    unfolding st
    by (simp_all add: initialSession_def detect_proceed signature_proceed js_nonempty
          resolveAutoResponse_def unattendedInput_def)
  have e: "effects ?st = [LogWrite ?c, Output ?c]" unfolding st by simp
  have a: "promptHandling ?r1 = AwaitingResponder proceedPrompt" by (simp add: run_manual)
  from fatal_prompt_error_rejects_session
    [OF refl, of ?st plainEnv unattendedInput ?c "[Spawned True]" proceedPrompt 5
       "(js ''exit'', 0 :: int)" 7 "NotError (js ''declined'')"]
    g e
  have 1: "finishSession unattendedInput (js ''exit'', 0 :: int)
       (maybeHandlePrompt plainEnv unattendedInput 5 7 ?st) = Some (Inl (noResponderError proceedPrompt))"
    and 2: "effects (settlePromptTask (maybeHandlePrompt plainEnv unattendedInput 5 7 ?st))
       = [LogWrite ?c, Output ?c, CancelRun]"
    by simp_all
  from fatal_prompt_error_rejects_session
    [OF refl, of ?r1 plainEnv manualInput ?c "[Spawned True, Chunk ?c 5 7]" proceedPrompt 5
       "(js ''exit'', 0 :: int)" 7 "NotError (js ''declined'')"]
    a
  have 3: "finishSession manualInput (js ''exit'', 0 :: int)
       (responderRejected manualInput (NotError (js ''declined'')) ?r1)
       = Some (Inl (asError (NotError (js ''declined''))))"
    and all: "\<forall>later. finishSession manualInput (js ''exit'', 0 :: int)
       (foldl (step plainEnv manualInput)
          (settlePromptTask (responderRejected manualInput (NotError (js ''declined'')) ?r1)) later)
       = Some (Inl (asError (NotError (js ''declined''))))"
    by blast+
  have x: "asError (NotError (js ''declined'')) = IsError (js ''declined'')"
    by (simp add: asError_def)
  from all have 4: "finishSession manualInput (js ''exit'', 0 :: int)
       (foldl (step plainEnv manualInput)
          (settlePromptTask (responderRejected manualInput (NotError (js ''declined'')) ?r1))
          [Chunk (js ''done'') 20 21, PollTick])
       = Some (Inl (asError (NotError (js ''declined''))))"
    by (rule spec)
  from 1 2 3 4 show ?thesis unfolding x by blast
qed

end
